theory Spec2Isabelle
  imports
    Main
    "HOL-Library.Char_ord"
    "HOL-Library.List_Lexorder"
    "HOL-Library.Product_Lexorder"
    "HOL-Library.Sublist"
begin

section \<open>The supercontig extension engine of main.py\<close>

text \<open>
  A shallow embedding of the classes \<open>Supercontigs\<close>, \<open>Searcher\<close> and \<open>Enhancer\<close>.
  Python strings are \<open>string\<close>; the model covers the code points below 256.
  Python lists keep their orientation: the work stack has its top at the end
  (\<open>stack[-1]\<close> is \<open>last\<close>, \<open>pop\<close> is \<open>butlast\<close>, \<open>append\<close> adds at the end).
  The printing of the source is left out.
\<close>

subsection \<open>Outcomes of a call\<close>

text \<open>
  \<open>re_error\<close> and \<open>OverflowError\<close> are raised by \<open>re.compile\<close>, \<open>IndexError\<close> by
  \<open>pop\<close> on an empty list, \<open>ValueError\<close> by \<open>range\<close> with step zero. \<open>Unmodelled\<close> marks a regular
  expression outside the fragment of Python's \<open>re\<close> that is modelled below;
  \<open>OutOfFuel\<close> marks a while loop that has not finished within the given
  number of iterations.
\<close>

datatype exn = re_error | OverflowError | IndexError | ValueError

datatype 'a outcome = Returns 'a | Raises exn | Unmodelled | OutOfFuel

subsection \<open>Statuses and the data model\<close>

definition OPEN :: string where "OPEN = ''open''"
definition OVERLAPPING :: string where "OVERLAPPING = ''overlapping''"
definition TOO_LONG :: string where "TOO_LONG = ''too_long''"
definition STUCK :: string where "STUCK = ''stuck''"
definition CLOSED :: string where "CLOSED = ''closed''"

text \<open>A contig is the dict \<open>{'status': ..., 'content': ...}\<close>; a supercontig likewise,
  its content being the list of its contigs.\<close>

record contig =
  c_status :: string
  c_content :: string

record supercontig =
  sc_status :: string
  sc_content :: "contig list"

text \<open>
  The configuration sections SUPERCONFIGS and ENHANCER. The two thresholds are floats
  and enter the code only through the float comparison \<open>a/total >= threshold\<close>;
  each field holds that comparison as a function of \<open>a\<close> and \<open>total\<close>, so the engine is
  modelled for every way the comparison may turn out. The overlap bounds and the
  successor length are written into regular expressions as decimal numerals and are
  taken as natural numbers.
\<close>

record config =
  overlapping_min :: nat
  overlapping_max :: nat
  max_contig_length :: int
  max_suffix_length :: int
  min_suffix_length :: int
  suffix_length_step :: int
  successor_length :: nat
  definitive_successor_threshold :: "nat \<Rightarrow> nat \<Rightarrow> bool"
  definitive_successor_total_min :: int
  branching_successor_threshold :: "nat \<Rightarrow> nat \<Rightarrow> bool"
  branching_successor_max_count :: int
  branching_successor_total_min :: int
  max_contig_amount :: int

subsection \<open>Python slices and ranges\<close>

text \<open>\<open>s[-k:]\<close>: the last \<open>k\<close> items for positive \<open>k\<close>, everything for \<open>k = 0\<close>
  (as \<open>-0\<close> is \<open>0\<close>), and \<open>s[|k|:]\<close> for negative \<open>k\<close>.\<close>

definition py_suffix :: "'a list \<Rightarrow> int \<Rightarrow> 'a list" where
  "py_suffix s k =
     (if k > 0 then drop (length s - nat k) s
      else if k = 0 then s
      else drop (nat (- k)) s)"

text \<open>\<open>xs[:k]\<close>: the first \<open>k\<close> items, or all but the last \<open>|k|\<close> for negative \<open>k\<close>.\<close>

definition py_take :: "int \<Rightarrow> 'a list \<Rightarrow> 'a list" where
  "py_take k xs =
     (if k \<ge> 0 then take (nat k) xs else take (length xs - nat (- k)) xs)"

text \<open>\<open>range(start, stop, step)\<close>; \<open>None\<close> is the ValueError for step zero.\<close>

definition py_range :: "int \<Rightarrow> int \<Rightarrow> int \<Rightarrow> int list option" where
  "py_range start stop step =
     (if step = 0 then None
      else if step > 0 then
        Some (map (\<lambda>i. start + int i * step) [0..<nat ((stop - start + step - 1) div step)])
      else
        Some (map (\<lambda>i. start + int i * step) [0..<nat ((start - stop - step - 1) div (- step))]))"

subsection \<open>Supercontigs.is\_overlapping\_contig\<close>

definition nucleotide :: "char \<Rightarrow> bool" where
  "nucleotide c = (c = CHR ''A'' \<or> c = CHR ''C'' \<or> c = CHR ''G'' \<or> c = CHR ''T'')"

text \<open>
  \<open>self.op.match(s)\<close> for the pattern \<open>([ACGT]{min,max})\#\1\<close>: some \<open>k\<close> between the
  bounds such that the first \<open>k\<close> characters of \<open>s\<close> are all among A, C, G, T, the
  next one is \<open>#\<close>, and the \<open>k\<close> characters after it repeat the first \<open>k\<close>.
  \<open>match\<close> anchors at the start of \<open>s\<close> only.
\<close>

definition op_match :: "nat \<Rightarrow> nat \<Rightarrow> string \<Rightarrow> bool" where
  "op_match omin omax s =
     list_ex (\<lambda>k. k < length s \<and> list_all nucleotide (take k s) \<and> s ! k = CHR ''#''
                 \<and> k \<le> length (drop (Suc k) s) \<and> take k (drop (Suc k) s) = take k s)
       [omin..<Suc omax]"

definition is_overlapping_contig :: "config \<Rightarrow> supercontig list \<Rightarrow> contig \<Rightarrow> bool" where
  "is_overlapping_contig cfg array contig =
     list_ex (\<lambda>supercontig. sc_content supercontig \<noteq> [] \<and>
                op_match (overlapping_min cfg) (overlapping_max cfg)
                  (c_content contig @ ''#'' @ c_content (hd (sc_content supercontig))))
       array"

subsection \<open>Searcher.find\_successors\<close>

text \<open>The characters with a meaning of their own in a Python regular expression.\<close>

definition metachar :: "char \<Rightarrow> bool" where
  "metachar c = (c \<in> set [CHR ''.'', CHR ''^'', CHR ''$'', CHR ''*'', CHR ''+'', CHR ''?'',
                           CHR ''{'', CHR ''}'', CHR ''['', CHR '']'', CHR 0x5C, CHR ''|'',
                           CHR ''('', CHR '')''])"

text \<open>The bound of the \<open>re\<close> module on a repetition count: \<open>.{n}\<close> with \<open>n\<close> at or
  above it does not compile.\<close>

definition MAXREPEAT :: int where
  "MAXREPEAT = 4294967295"

text \<open>
  \<open>re.compile(suffix + '(.{n})', re.IGNORECASE)\<close>: the suffix is pasted into the pattern
  as it is. Without metacharacters it is a literal. With opening parentheses as its
  only metacharacters the pattern has a group that is never closed, and \<open>re.compile\<close>
  raises \<open>re.error\<close> at the end of the pattern, unless it has raised OverflowError at the
  repetition count before. Other suffixes are outside the model.
\<close>

definition compile_suffix :: "string \<Rightarrow> nat \<Rightarrow> unit outcome" where
  "compile_suffix sfx n =
     (if \<not> list_all (\<lambda>c. \<not> metachar c \<or> c = CHR ''('') sfx then Unmodelled
      else if int n \<ge> MAXREPEAT then Raises OverflowError
      else if list_all (\<lambda>c. \<not> metachar c) sfx then Returns ()
      else Raises re_error)"

text \<open>Lower case of a code point below 256: A to Z, and the Latin-1 capitals.\<close>

definition lower :: "char \<Rightarrow> char" where
  "lower c =
     (let n = (of_char c :: nat)
      in if (65 \<le> n \<and> n \<le> 90) \<or> (192 \<le> n \<and> n \<le> 222 \<and> n \<noteq> 215)
         then char_of (n + 32) else c)"

text \<open>The pattern matches at the start of \<open>txt\<close>: the suffix up to letter case, then
  \<open>n\<close> characters other than a newline.\<close>

definition match_at :: "string \<Rightarrow> nat \<Rightarrow> string \<Rightarrow> bool" where
  "match_at sfx n txt =
     (length sfx + n \<le> length txt
      \<and> map lower (take (length sfx) txt) = map lower sfx
      \<and> list_all (\<lambda>c. c \<noteq> CHR 0x0A) (take n (drop (length sfx) txt)))"

text \<open>\<open>pattern.findall(read)\<close>: scan from the left; a match yields its group and the
  scan goes on behind the match; an empty match is found at every position and at the end.\<close>

fun findall :: "string \<Rightarrow> nat \<Rightarrow> string \<Rightarrow> string list" where
  "findall sfx n [] = (if sfx = [] \<and> n = 0 then [Nil] else [])"
| "findall sfx n (c # cs) =
     (if match_at sfx n (c # cs) then
        take n (drop (length sfx) (c # cs))
          # findall sfx n (drop (length sfx + n - 1) cs)
      else findall sfx n cs)"

text \<open>\<open>if succ not in successors: successors[succ] = 0\<close>, then \<open>successors[succ] += 1\<close>.
  The dict is an association list in insertion order.\<close>

fun tally :: "string \<Rightarrow> (string \<times> nat) list \<Rightarrow> (string \<times> nat) list" where
  "tally succ [] = [(succ, 1)]"
| "tally succ ((k, v) # successors) =
     (if k = succ then (k, v + 1) # successors else (k, v) # tally succ successors)"

definition find_successors ::
  "string list \<Rightarrow> string \<Rightarrow> nat \<Rightarrow> (string \<times> nat) list outcome" where
  "find_successors database sfx n =
     (case compile_suffix sfx n of
        Returns _ \<Rightarrow>
          Returns (fold (\<lambda>read successors. fold tally (findall sfx n read) successors)
                        database [])
      | Raises e \<Rightarrow> Raises e
      | Unmodelled \<Rightarrow> Unmodelled
      | OutOfFuel \<Rightarrow> OutOfFuel)"

subsection \<open>Ranking and candidate selection\<close>

text \<open>\<open>sorted([(y,x) for (x,y) in successors.items()])[::-1]\<close>\<close>

definition rank :: "(string \<times> nat) list \<Rightarrow> (nat \<times> string) list" where
  "rank successors = rev (sort (map (\<lambda>(x, y). (y, x)) successors))"

definition definitive_successor ::
  "(nat \<times> string) list \<Rightarrow> (nat \<Rightarrow> nat \<Rightarrow> bool) \<Rightarrow> int \<Rightarrow> string option" where
  "definitive_successor successors threshold total_minimum =
     (if length successors = 0 then None
      else let total = sum_list (map fst successors)
           in if int total < total_minimum then None
              else if threshold (fst (hd successors)) total then Some (snd (hd successors))
              else None)"

definition branching_successors ::
  "(nat \<times> string) list \<Rightarrow> (nat \<Rightarrow> nat \<Rightarrow> bool) \<Rightarrow> int \<Rightarrow> int \<Rightarrow> string list option" where
  "branching_successors successors threshold total_minimum max_count =
     (if length successors = 0 then None
      else let total = sum_list (map fst successors)
           in if int total < total_minimum then None
              else Some (py_take max_count
                           (map snd (filter (\<lambda>(a, b). threshold a total) successors))))"

subsection \<open>The stop flag\<close>

text \<open>
  The global \<open>isStopped\<close> is set by the signal handler at an arbitrary moment and never
  reset; the engine only reads it. A flag value is the number of reads that still
  see False (\<open>None\<close>: the flag is never set); every read of the engine passes the
  flag on through \<open>tick\<close>.
\<close>

type_synonym stop_flag = "nat option"

fun isStopped :: "stop_flag \<Rightarrow> bool" where
  "isStopped (Some 0) = True"
| "isStopped _ = False"

fun tick :: "stop_flag \<Rightarrow> stop_flag" where
  "tick (Some (Suc n)) = Some n"
| "tick f = f"

subsection \<open>Enhancer.start\<close>

fun and_then :: "'a outcome \<Rightarrow> ('a \<Rightarrow> 'b outcome) \<Rightarrow> 'b outcome" where
  "and_then (Returns x) f = f x"
| "and_then (Raises e) f = Raises e"
| "and_then Unmodelled f = Unmodelled"
| "and_then OutOfFuel f = OutOfFuel"

text \<open>
  The state of the while loop over one supercontig: the collection \<open>self.supercontigs.array\<close>
  (the supercontig under work is changed in place, and the loop-closure test reads
  the collection), the work stack, and \<open>total_contig_count\<close>.
\<close>

record engine_state =
  array :: "supercontig list"
  stack :: "contig list"
  total_contig_count :: int
  flag :: stop_flag

text \<open>Lines 204 to 208: the two tests at the top of the while loop, one after the other.\<close>

definition inspect :: "config \<Rightarrow> supercontig list \<Rightarrow> contig \<Rightarrow> contig" where
  "inspect cfg arr contig =
     (let c1 = (if is_overlapping_contig cfg arr contig
                then contig\<lparr>c_status := OVERLAPPING\<rparr> else contig);
          c2 = (if int (length (c_content c1)) > max_contig_length cfg
                then c1\<lparr>c_status := TOO_LONG\<rparr> else c1)
      in c2)"

text \<open>Lines 263 to 268: the children are deep copies of \<open>contig\<close>, pushed while the
  count is below \<open>max_contig_amount\<close>.\<close>

fun push_children ::
  "config \<Rightarrow> contig \<Rightarrow> string list \<Rightarrow> contig list \<times> int \<Rightarrow> contig list \<times> int" where
  "push_children cfg contig [] (stk, cnt) = (stk, cnt)"
| "push_children cfg contig (successor # rest) (stk, cnt) =
     (if cnt \<ge> max_contig_amount cfg then (stk, cnt)
      else push_children cfg contig rest
             (stk @ [contig\<lparr>c_content := c_content contig @ successor\<rparr>], cnt + 1))"

text \<open>Lines 261 to 268, the branching step: \<open>stack.pop()\<close> raises on an empty stack.\<close>

definition branch ::
  "config \<Rightarrow> contig \<Rightarrow> string list \<Rightarrow> contig list \<times> int \<Rightarrow> (contig list \<times> int) outcome" where
  "branch cfg contig branching_candidates st =
     (case st of (stk, cnt) \<Rightarrow>
        if stk = [] then Raises IndexError
        else Returns (push_children cfg contig branching_candidates (butlast stk, cnt - 1)))"

datatype 'a ctl = Break 'a | Next 'a

text \<open>
  Lines 223 to 268: what one pass of the for loop does with the table that
  \<open>find_successors\<close> has returned. The state is the stack, the count and \<open>enhanced\<close>.
  \<open>contig\<close> is the object taken from the top of the stack; it is still the top of the
  stack as long as no branching step has popped it, that is as long as \<open>enhanced\<close> is
  False, and then \<open>contig['content'] += candidate\<close> changes the top of the stack. After a
  branching step the object is detached and the assignment changes nothing that is read
  later.
\<close>

definition select_extension ::
  "config \<Rightarrow> contig \<Rightarrow> contig list \<times> int \<times> bool \<Rightarrow> (string \<times> nat) list
     \<Rightarrow> (contig list \<times> int \<times> bool) ctl outcome" where
  "select_extension cfg contig st table =
     (case st of (stk, cnt, enhanced) \<Rightarrow>
        let successors = rank table
        in case definitive_successor successors (definitive_successor_threshold cfg)
                  (definitive_successor_total_min cfg) of
             Some candidate \<Rightarrow>
               Returns (Break
                 ((if enhanced then stk
                   else butlast stk @ [contig\<lparr>c_content := c_content contig @ candidate\<rparr>]),
                  cnt, True))
           | None \<Rightarrow>
               (case branching_successors successors (branching_successor_threshold cfg)
                       (branching_successor_total_min cfg)
                       (branching_successor_max_count cfg) of
                  None \<Rightarrow> Returns (Next st)
                | Some branching_candidates \<Rightarrow>
                    if length branching_candidates > 1 then
                      and_then (branch cfg contig branching_candidates (stk, cnt))
                        (\<lambda>(stk', cnt'). Returns (Next (stk', cnt', True)))
                    else Returns (Next st)))"

text \<open>Lines 220 to 268, one pass of the for loop for one suffix length: the query with
  the slice \<open>contig['content'][-suffix_length:]\<close>, then the selection.\<close>

definition attempt ::
  "config \<Rightarrow> string list \<Rightarrow> contig \<Rightarrow> int \<Rightarrow> contig list \<times> int \<times> bool
     \<Rightarrow> (contig list \<times> int \<times> bool) ctl outcome" where
  "attempt cfg database contig suffix_length st =
     and_then (find_successors database (py_suffix (c_content contig) suffix_length)
                 (successor_length cfg))
       (select_extension cfg contig st)"

text \<open>Lines 216 to 268: the for loop over the suffix lengths, which reads the flag first.\<close>

fun suffix_loop ::
  "config \<Rightarrow> string list \<Rightarrow> contig \<Rightarrow> int list \<Rightarrow> stop_flag \<Rightarrow> contig list \<times> int \<times> bool
     \<Rightarrow> (stop_flag \<times> contig list \<times> int \<times> bool) outcome" where
  "suffix_loop cfg database contig [] f st = Returns (f, st)"
| "suffix_loop cfg database contig (suffix_length # rest) f st =
     (if isStopped f then Returns (f, st)
      else and_then (attempt cfg database contig suffix_length st)
             (\<lambda>r. case r of
                     Break st' \<Rightarrow> Returns (tick f, st')
                   | Next st' \<Rightarrow> suffix_loop cfg database contig rest (tick f) st'))"

definition append_content :: "supercontig list \<Rightarrow> nat \<Rightarrow> contig list \<Rightarrow> supercontig list" where
  "append_content arr i cs = arr[i := (arr ! i)\<lparr>sc_content := sc_content (arr ! i) @ cs\<rparr>]"

text \<open>Lines 203 to 273: one pass of the while loop for supercontig \<open>i\<close>, entered with a
  stack that is not empty.\<close>

definition loop_body :: "config \<Rightarrow> string list \<Rightarrow> nat \<Rightarrow> engine_state \<Rightarrow> engine_state outcome" where
  "loop_body cfg database i s =
     (let contig = inspect cfg (array s) (last (stack s))
      in if c_status contig \<noteq> OPEN then
           Returns (s\<lparr>array := append_content (array s) i [contig], stack := butlast (stack s)\<rparr>)
         else
           case py_range (max_suffix_length cfg) (min_suffix_length cfg - 1)
                  (- suffix_length_step cfg) of
             None \<Rightarrow> Raises ValueError
           | Some lengths \<Rightarrow>
               and_then (suffix_loop cfg database contig lengths (flag s)
                           (stack s, total_contig_count s, False))
                 (\<lambda>(f, stk, cnt, enhanced).
                    Returns (s\<lparr>stack := (if enhanced then stk
                                          else butlast stk @ [contig\<lparr>c_status := STUCK\<rparr>]),
                              total_contig_count := cnt, flag := f\<rparr>)))"

text \<open>Lines 201 to 273: the while loop, with a bound on the number of passes.\<close>

fun while_loop ::
  "nat \<Rightarrow> config \<Rightarrow> string list \<Rightarrow> nat \<Rightarrow> engine_state \<Rightarrow> engine_state outcome" where
  "while_loop 0 cfg database i s =
     (if stack s = [] then Returns s
      else if isStopped (flag s) then Returns s
      else OutOfFuel)"
| "while_loop (Suc fuel) cfg database i s =
     (if stack s = [] then Returns s
      else if isStopped (flag s) then Returns s
      else and_then (loop_body cfg database i (s\<lparr>flag := tick (flag s)\<rparr>))
             (while_loop fuel cfg database i))"

text \<open>Lines 192 to 274 for the supercontig at index \<open>i\<close>, whose status is OPEN.\<close>

definition process ::
  "nat \<Rightarrow> config \<Rightarrow> string list \<Rightarrow> nat \<Rightarrow> stop_flag \<Rightarrow> supercontig list
     \<Rightarrow> (stop_flag \<times> supercontig list) outcome" where
  "process fuel cfg database i f arr =
     (let supercontig = arr ! i;
          stk = filter (\<lambda>x. c_status x = OPEN) (sc_content supercontig);
          kept = filter (\<lambda>x. c_status x \<noteq> OPEN) (sc_content supercontig)
      in and_then
           (while_loop fuel cfg database i
              \<lparr>array = arr[i := supercontig\<lparr>sc_content := kept\<rparr>], stack = stk,
               total_contig_count = int (length stk) + int (length kept), flag = f\<rparr>)
           (\<lambda>s. Returns (flag s, append_content (array s) i (stack s))))"

text \<open>Lines 190 to 274: the loop over the indices of the collection.\<close>

fun start_from ::
  "nat \<Rightarrow> config \<Rightarrow> string list \<Rightarrow> nat list \<Rightarrow> stop_flag \<Rightarrow> supercontig list
     \<Rightarrow> supercontig list outcome" where
  "start_from fuel cfg database [] f arr = Returns arr"
| "start_from fuel cfg database (i # rest) f arr =
     (if isStopped f then Returns arr
      else if sc_status (arr ! i) \<noteq> OPEN then start_from fuel cfg database rest (tick f) arr
      else and_then (process fuel cfg database i (tick f) arr)
             (\<lambda>(f', arr'). start_from fuel cfg database rest f' arr'))"

text \<open>\<open>Enhancer.start\<close>: the result is the collection as the call leaves it. \<open>fuel\<close>
  bounds the passes of the while loop of each supercontig.\<close>

definition start ::
  "nat \<Rightarrow> config \<Rightarrow> string list \<Rightarrow> stop_flag \<Rightarrow> supercontig list \<Rightarrow> supercontig list outcome" where
  "start fuel cfg database f arr = start_from fuel cfg database [0..<length arr] f arr"

section \<open>Definitions taken from the specification, for comparison\<close>

text \<open>
  The number of non-overlapping, case-insensitive, left-to-right literal occurrences
  of a suffix in a read, as the specification words the total that the counts of
  \<open>find_successors\<close> are compared with. The empty suffix occurs at every position and
  at the end.
\<close>

fun occurrences :: "string \<Rightarrow> string \<Rightarrow> nat" where
  "occurrences sfx [] = (if sfx = [] then 1 else 0)"
| "occurrences sfx (c # cs) =
     (if length sfx \<le> length (c # cs) \<and> map lower (take (length sfx) (c # cs)) = map lower sfx
      then 1 + occurrences sfx (drop (length sfx - 1) cs)
      else occurrences sfx cs)"

text \<open>
  The matches that the counts of \<open>find_successors\<close> stand for, stated by positions and
  without reference to the scan. A position of a read is counted when the suffix occurs
  there, up to letter case, with \<open>n\<close> characters other than a newline behind it inside the
  read. A match spans the suffix and its window, an empty match one position.
  The positions of the matches of a read are then the increasing list of counted
  positions in which each one lies behind the span of the one before, and in which every
  counted position of the read lies in the span of a listed one: a counted position is
  left out only when an earlier match covers it.
\<close>

definition counted_at :: "string \<Rightarrow> nat \<Rightarrow> string \<Rightarrow> nat \<Rightarrow> bool" where
  "counted_at sfx n read p =
     (p + length sfx + n \<le> length read
      \<and> map lower (take (length sfx) (drop p read)) = map lower sfx
      \<and> CHR 0x0A \<notin> set (take n (drop (p + length sfx) read)))"

definition span :: "string \<Rightarrow> nat \<Rightarrow> nat" where
  "span sfx n = max 1 (length sfx + n)"

definition match_positions :: "string \<Rightarrow> nat \<Rightarrow> string \<Rightarrow> nat list \<Rightarrow> bool" where
  "match_positions sfx n read ps =
     (sorted_wrt (\<lambda>p q. p + span sfx n \<le> q) ps
      \<and> list_all (counted_at sfx n read) ps
      \<and> list_all (\<lambda>q. counted_at sfx n read q
                         \<longrightarrow> list_ex (\<lambda>p. p \<le> q \<and> q < p + span sfx n) ps)
           [0..<Suc (length read)])"

text \<open>
  The variant of the engine that the specification allows: it leaves the for loop over
  the suffix lengths as soon as a branching step has been made. Everything else is as in
  \<open>Enhancer.start\<close>.
\<close>

definition select_extension_break_on_branch ::
  "config \<Rightarrow> contig \<Rightarrow> contig list \<times> int \<times> bool \<Rightarrow> (string \<times> nat) list
     \<Rightarrow> (contig list \<times> int \<times> bool) ctl outcome" where
  "select_extension_break_on_branch cfg contig st table =
     (case st of (stk, cnt, enhanced) \<Rightarrow>
        let successors = rank table
        in case definitive_successor successors (definitive_successor_threshold cfg)
                  (definitive_successor_total_min cfg) of
             Some candidate \<Rightarrow>
               Returns (Break
                 ((if enhanced then stk
                   else butlast stk @ [contig\<lparr>c_content := c_content contig @ candidate\<rparr>]),
                  cnt, True))
           | None \<Rightarrow>
               (case branching_successors successors (branching_successor_threshold cfg)
                       (branching_successor_total_min cfg)
                       (branching_successor_max_count cfg) of
                  None \<Rightarrow> Returns (Next st)
                | Some branching_candidates \<Rightarrow>
                    if length branching_candidates > 1 then
                      and_then (branch cfg contig branching_candidates (stk, cnt))
                        (\<lambda>(stk', cnt'). Returns (Break (stk', cnt', True)))
                    else Returns (Next st)))"

definition attempt_break_on_branch ::
  "config \<Rightarrow> string list \<Rightarrow> contig \<Rightarrow> int \<Rightarrow> contig list \<times> int \<times> bool
     \<Rightarrow> (contig list \<times> int \<times> bool) ctl outcome" where
  "attempt_break_on_branch cfg database contig suffix_length st =
     and_then (find_successors database (py_suffix (c_content contig) suffix_length)
                 (successor_length cfg))
       (select_extension_break_on_branch cfg contig st)"

fun suffix_loop_break_on_branch ::
  "config \<Rightarrow> string list \<Rightarrow> contig \<Rightarrow> int list \<Rightarrow> stop_flag \<Rightarrow> contig list \<times> int \<times> bool
     \<Rightarrow> (stop_flag \<times> contig list \<times> int \<times> bool) outcome" where
  "suffix_loop_break_on_branch cfg database contig [] f st = Returns (f, st)"
| "suffix_loop_break_on_branch cfg database contig (suffix_length # rest) f st =
     (if isStopped f then Returns (f, st)
      else and_then (attempt_break_on_branch cfg database contig suffix_length st)
             (\<lambda>r. case r of
                     Break st' \<Rightarrow> Returns (tick f, st')
                   | Next st' \<Rightarrow> suffix_loop_break_on_branch cfg database contig rest (tick f) st'))"

definition loop_body_break_on_branch ::
  "config \<Rightarrow> string list \<Rightarrow> nat \<Rightarrow> engine_state \<Rightarrow> engine_state outcome" where
  "loop_body_break_on_branch cfg database i s =
     (let contig = inspect cfg (array s) (last (stack s))
      in if c_status contig \<noteq> OPEN then
           Returns (s\<lparr>array := append_content (array s) i [contig], stack := butlast (stack s)\<rparr>)
         else
           case py_range (max_suffix_length cfg) (min_suffix_length cfg - 1)
                  (- suffix_length_step cfg) of
             None \<Rightarrow> Raises ValueError
           | Some lengths \<Rightarrow>
               and_then (suffix_loop_break_on_branch cfg database contig lengths (flag s)
                           (stack s, total_contig_count s, False))
                 (\<lambda>(f, stk, cnt, enhanced).
                    Returns (s\<lparr>stack := (if enhanced then stk
                                          else butlast stk @ [contig\<lparr>c_status := STUCK\<rparr>]),
                              total_contig_count := cnt, flag := f\<rparr>)))"

fun while_loop_break_on_branch ::
  "nat \<Rightarrow> config \<Rightarrow> string list \<Rightarrow> nat \<Rightarrow> engine_state \<Rightarrow> engine_state outcome" where
  "while_loop_break_on_branch 0 cfg database i s =
     (if stack s = [] then Returns s
      else if isStopped (flag s) then Returns s
      else OutOfFuel)"
| "while_loop_break_on_branch (Suc fuel) cfg database i s =
     (if stack s = [] then Returns s
      else if isStopped (flag s) then Returns s
      else and_then (loop_body_break_on_branch cfg database i (s\<lparr>flag := tick (flag s)\<rparr>))
             (while_loop_break_on_branch fuel cfg database i))"

definition process_break_on_branch ::
  "nat \<Rightarrow> config \<Rightarrow> string list \<Rightarrow> nat \<Rightarrow> stop_flag \<Rightarrow> supercontig list
     \<Rightarrow> (stop_flag \<times> supercontig list) outcome" where
  "process_break_on_branch fuel cfg database i f arr =
     (let supercontig = arr ! i;
          stk = filter (\<lambda>x. c_status x = OPEN) (sc_content supercontig);
          kept = filter (\<lambda>x. c_status x \<noteq> OPEN) (sc_content supercontig)
      in and_then
           (while_loop_break_on_branch fuel cfg database i
              \<lparr>array = arr[i := supercontig\<lparr>sc_content := kept\<rparr>], stack = stk,
               total_contig_count = int (length stk) + int (length kept), flag = f\<rparr>)
           (\<lambda>s. Returns (flag s, append_content (array s) i (stack s))))"

fun start_from_break_on_branch ::
  "nat \<Rightarrow> config \<Rightarrow> string list \<Rightarrow> nat list \<Rightarrow> stop_flag \<Rightarrow> supercontig list
     \<Rightarrow> supercontig list outcome" where
  "start_from_break_on_branch fuel cfg database [] f arr = Returns arr"
| "start_from_break_on_branch fuel cfg database (i # rest) f arr =
     (if isStopped f then Returns arr
      else if sc_status (arr ! i) \<noteq> OPEN
           then start_from_break_on_branch fuel cfg database rest (tick f) arr
      else and_then (process_break_on_branch fuel cfg database i (tick f) arr)
             (\<lambda>(f', arr'). start_from_break_on_branch fuel cfg database rest f' arr'))"

definition start_break_on_branch ::
  "nat \<Rightarrow> config \<Rightarrow> string list \<Rightarrow> stop_flag \<Rightarrow> supercontig list \<Rightarrow> supercontig list outcome" where
  "start_break_on_branch fuel cfg database f arr =
     start_from_break_on_branch fuel cfg database [0..<length arr] f arr"

section \<open>Example inputs\<close>

text \<open>
  A configuration for small examples: suffix lengths 2 and 1, successors of one
  character, thresholds 0.95 and 0.30 (decided exactly on the small counts of the
  examples), and the default bounds on overlap, length and number of contigs.
\<close>

definition example_config :: config where
  "example_config =
     \<lparr>overlapping_min = 50, overlapping_max = 70, max_contig_length = 80000,
      max_suffix_length = 2, min_suffix_length = 1, suffix_length_step = 1,
      successor_length = 1,
      definitive_successor_threshold = (\<lambda>a t. 95 * t \<le> 100 * a),
      definitive_successor_total_min = 2,
      branching_successor_threshold = (\<lambda>a t. 30 * t \<le> 100 * a),
      branching_successor_max_count = 3,
      branching_successor_total_min = 2,
      max_contig_amount = 5\<rparr>"

text \<open>Overlap bounds 1 to 5, and the same with a maximal contig length of 1.\<close>

definition overlap_config :: config where
  "overlap_config = example_config\<lparr>overlapping_min := 1, overlapping_max := 5\<rparr>"


text \<open>One suffix length only: \<open>range(1, 0, -1)\<close>.\<close>

definition single_length_config :: config where
  "single_length_config = example_config\<lparr>max_suffix_length := 1\<rparr>"

text \<open>A read corpus in which A is followed once by C and once by G.\<close>

definition two_reads :: "string list" where
  "two_reads = [''AC'', ''AG'']"

text \<open>A collection as \<open>Supercontigs.read\<close> builds it (every contig OPEN): a closed
  supercontig and an open one, each with the one contig AC.\<close>

definition closed_and_open :: "supercontig list" where
  "closed_and_open =
     [\<lparr>sc_status = CLOSED, sc_content = [\<lparr>c_status = OPEN, c_content = ''AC''\<rparr>]\<rparr>,
      \<lparr>sc_status = OPEN, sc_content = [\<lparr>c_status = OPEN, c_content = ''AC''\<rparr>]\<rparr>]"


text \<open>One open supercontig with the one contig A.\<close>

definition single_A :: "supercontig list" where
  "single_A = [\<lparr>sc_status = OPEN, sc_content = [\<lparr>c_status = OPEN, c_content = ''A''\<rparr>]\<rparr>]"

text \<open>The state in which the while loop is entered for one open supercontig of seven
  contigs, the last of them A.\<close>

definition seven_contigs :: "contig list" where
  "seven_contigs = map (\<lambda>s. \<lparr>c_status = OPEN, c_content = s\<rparr>)
                     [''CA'', ''CC'', ''CG'', ''CT'', ''GC'', ''GG'', ''A'']"

definition seven_state :: engine_state where
  "seven_state =
     \<lparr>array = [\<lparr>sc_status = OPEN, sc_content = []\<rparr>], stack = seven_contigs,
      total_contig_count = 7, flag = None\<rparr>"

text \<open>A collection without any OPEN contig.\<close>

definition finalized_collection :: "supercontig list" where
  "finalized_collection =
     [\<lparr>sc_status = OPEN, sc_content = [\<lparr>c_status = STUCK, c_content = ''AC''\<rparr>,
                                         \<lparr>c_status = OVERLAPPING, c_content = ''ACGT''\<rparr>]\<rparr>,
      \<lparr>sc_status = CLOSED, sc_content = [\<lparr>c_status = TOO_LONG, c_content = ''A''\<rparr>]\<rparr>]"


section \<open>Auxiliary predicates and functions\<close>

text \<open>The positions at which \<open>findall\<close> finds its matches.\<close>

fun findall_positions :: "string \<Rightarrow> nat \<Rightarrow> string \<Rightarrow> nat list" where
  "findall_positions sfx n [] = (if sfx = [] \<and> n = 0 then [0] else [])"
| "findall_positions sfx n (c # cs) =
     (if match_at sfx n (c # cs) then
        0 # map (\<lambda>p. p + span sfx n) (findall_positions sfx n (drop (length sfx + n - 1) cs))
      else map Suc (findall_positions sfx n cs))"

text \<open>A call that returns, or raises the IndexError of \<open>pop\<close>.\<close>

definition regex_safe :: "'a outcome \<Rightarrow> bool" where
  "regex_safe r =
     (r \<noteq> Raises re_error \<and> r \<noteq> Raises OverflowError \<and> r \<noteq> Raises ValueError
      \<and> r \<noteq> Unmodelled \<and> r \<noteq> OutOfFuel)"

text \<open>\<open>total_contig_count\<close> is the number of contigs on the stack and in the content of
  supercontig \<open>i\<close>.\<close>

definition count_ok :: "nat \<Rightarrow> engine_state \<Rightarrow> bool" where
  "count_ok i s = (total_contig_count s
                    = int (length (stack s)) + int (length (sc_content (array s ! i))))"

text \<open>Strings, collections and engine states without regular-expression metacharacters.\<close>

definition plain :: "string \<Rightarrow> bool" where
  "plain s = list_all (\<lambda>c. \<not> metachar c) s"

definition plain_collection :: "supercontig list \<Rightarrow> bool" where
  "plain_collection arr = list_all (\<lambda>sc. list_all (\<lambda>c. plain (c_content c)) (sc_content sc)) arr"

definition plain_state :: "engine_state \<Rightarrow> bool" where
  "plain_state s = (plain_collection (array s) \<and> list_all (\<lambda>c. plain (c_content c)) (stack s))"

text \<open>A call that ends without an error of \<open>re.compile\<close>.\<close>

definition no_regex_failure :: "'a outcome \<Rightarrow> bool" where
  "no_regex_failure r = (r \<noteq> Raises re_error \<and> r \<noteq> Raises OverflowError \<and> r \<noteq> Unmodelled)"

section \<open>Properties\<close>

subsection \<open>Basic facts\<close>

lemma statuses_distinct:
  "OVERLAPPING \<noteq> OPEN" "TOO_LONG \<noteq> OPEN" "STUCK \<noteq> OPEN" "CLOSED \<noteq> OPEN"
  "OVERLAPPING \<noteq> TOO_LONG" "OVERLAPPING \<noteq> STUCK" "TOO_LONG \<noteq> STUCK"
  by (simp_all add: OPEN_def OVERLAPPING_def TOO_LONG_def STUCK_def CLOSED_def)

lemma and_then_Returns_iff:
  "and_then m f = Returns y \<longleftrightarrow> (\<exists>x. m = Returns x \<and> f x = Returns y)"
  by (cases m) simp_all

lemma attempt_unfold:
  "attempt cfg database contig k (stk, cnt, enhanced) =
     and_then (find_successors database (py_suffix (c_content contig) k) (successor_length cfg))
       (\<lambda>table.
          let successors = rank table
          in case definitive_successor successors (definitive_successor_threshold cfg)
                    (definitive_successor_total_min cfg) of
               Some candidate \<Rightarrow>
                 Returns (Break
                   ((if enhanced then stk
                     else butlast stk @ [contig\<lparr>c_content := c_content contig @ candidate\<rparr>]),
                    cnt, True))
             | None \<Rightarrow>
                 (case branching_successors successors (branching_successor_threshold cfg)
                         (branching_successor_total_min cfg)
                         (branching_successor_max_count cfg) of
                    None \<Rightarrow> Returns (Next (stk, cnt, enhanced))
                  | Some branching_candidates \<Rightarrow>
                      if length branching_candidates > 1 then
                        and_then (branch cfg contig branching_candidates (stk, cnt))
                          (\<lambda>(stk', cnt'). Returns (Next (stk', cnt', True)))
                      else Returns (Next (stk, cnt, enhanced))))"
  by (cases "find_successors database (py_suffix (c_content contig) k) (successor_length cfg)")
     (simp_all add: attempt_def select_extension_def)

lemma py_suffix_whole: "int (length s) \<le> k \<Longrightarrow> py_suffix s k = s"
  by (auto simp: py_suffix_def)

subsection \<open>Ranking\<close>

lemma rank_desc:
  assumes "i \<le> j" "j < length (rank t)"
  shows "rank t ! j \<le> rank t ! i"
proof -
  have "sorted_wrt (\<lambda>x y. y \<le> x) (rank t)"
    unfolding rank_def by (simp add: sorted_wrt_rev)
  then show ?thesis using assms
    by (cases "i = j") (auto simp: sorted_wrt_iff_nth_less)
qed

text \<open>
  Claim C6. The ranked list holds exactly the entries of the table, as (count, successor)
  pairs, and whenever the entry at position \<open>i\<close> has a higher count than the entry at
  position \<open>j\<close>, or the same count and a lexicographically greater successor string,
  then \<open>i\<close> comes before \<open>j\<close>. The keys of a table are distinct, so any two entries are
  ordered by this rule.
\<close>

theorem rank_total_order:
  "length (rank t) = length t
   \<and> set (rank t) = (\<lambda>(x, y). (y, x)) ` set t
   \<and> (\<forall>i j. i < length t \<and> j < length t \<and>
          (fst (rank t ! i) > fst (rank t ! j)
           \<or> (fst (rank t ! i) = fst (rank t ! j) \<and> snd (rank t ! i) > snd (rank t ! j)))
          \<longrightarrow> i < j)"
proof (intro conjI allI impI)
  show len: "length (rank t) = length t" by (simp add: rank_def)
  show "set (rank t) = (\<lambda>(x, y). (y, x)) ` set t" by (simp add: rank_def)
  fix i j
  assume h: "i < length t \<and> j < length t \<and>
          (fst (rank t ! i) > fst (rank t ! j)
           \<or> (fst (rank t ! i) = fst (rank t ! j) \<and> snd (rank t ! i) > snd (rank t ! j)))"
  show "i < j"
  proof (rule ccontr)
    assume "\<not> i < j"
    then have "rank t ! i \<le> rank t ! j" using h len rank_desc [of j i t] by simp
    then show False using h by (auto simp: less_eq_prod_def)
  qed
qed

text \<open>The scenario of the specification: of two successors with count 5, CCCC ranks
  before AAAA.\<close>

theorem rank_total_order_witness:
  "rank [(''AAAA'', 5), (''CCCC'', 5), (''GGGG'', 7)] = [(7, ''GGGG''), (5, ''CCCC''), (5, ''AAAA'')]
   \<and> (1::nat) < 2"
proof -
  let ?t = "[(''AAAA'', 5::nat), (''CCCC'', 5), (''GGGG'', 7)]"
  have r: "rank ?t = [(7, ''GGGG''), (5, ''CCCC''), (5, ''AAAA'')]" by code_simp
  have lt: "''AAAA'' < ''CCCC''" by code_simp
  have "(1::nat) < length ?t \<and> (2::nat) < length ?t \<and>
          (fst (rank ?t ! 1) > fst (rank ?t ! 2)
           \<or> (fst (rank ?t ! 1) = fst (rank ?t ! 2) \<and> snd (rank ?t ! 1) > snd (rank ?t ! 2)))"
    unfolding r using lt by simp
  then have "(1::nat) < 2" using rank_total_order [of ?t] by blast
  then show ?thesis using r by simp
qed

subsection \<open>The query of a short fragment\<close>

text \<open>
  Claim C10. When the content of a fragment is no longer than the suffix length, the
  slice \<open>content[-suffix_length:]\<close> is the whole content, so the pass of the for loop
  is the call of \<open>find_successors\<close> with the whole content as the suffix, followed by
  the selection on the table it returns (an exception of the call leaves the pass);
  and the pass is the same for every suffix length that is at least the length of the
  content.
\<close>

theorem short_content_whole_query:
  assumes "int (length (c_content contig)) \<le> k"
  shows "py_suffix (c_content contig) k = c_content contig
         \<and> attempt cfg database contig k st
             = and_then (find_successors database (c_content contig) (successor_length cfg))
                 (select_extension cfg contig st)
         \<and> (\<forall>k'. int (length (c_content contig)) \<le> k' \<longrightarrow>
               attempt cfg database contig k' st = attempt cfg database contig k st)"
  using assms by (simp add: py_suffix_whole attempt_def)

text \<open>The contig A with the suffix lengths 2 and 1: both passes query with A, find the
  successors C and G, and branch.\<close>

theorem short_content_whole_query_witness:
  "int (length (c_content \<lparr>c_status = OPEN, c_content = ''A''\<rparr>)) \<le> 2
   \<and> py_suffix ''A'' 2 = ''A''
   \<and> find_successors two_reads ''A'' 1 = Returns [(''C'', 1), (''G'', 1)]
   \<and> attempt example_config two_reads \<lparr>c_status = OPEN, c_content = ''A''\<rparr> 2
         ([\<lparr>c_status = OPEN, c_content = ''A''\<rparr>], 1, False)
       = and_then (find_successors two_reads ''A'' (successor_length example_config))
           (select_extension example_config \<lparr>c_status = OPEN, c_content = ''A''\<rparr>
              ([\<lparr>c_status = OPEN, c_content = ''A''\<rparr>], 1, False))
   \<and> attempt example_config two_reads \<lparr>c_status = OPEN, c_content = ''A''\<rparr> 2
         ([\<lparr>c_status = OPEN, c_content = ''A''\<rparr>], 1, False)
       = Returns (Next ([\<lparr>c_status = OPEN, c_content = ''AG''\<rparr>,
                         \<lparr>c_status = OPEN, c_content = ''AC''\<rparr>], 2, True))
   \<and> attempt example_config two_reads \<lparr>c_status = OPEN, c_content = ''A''\<rparr> 1
         ([\<lparr>c_status = OPEN, c_content = ''A''\<rparr>], 1, False)
     = attempt example_config two_reads \<lparr>c_status = OPEN, c_content = ''A''\<rparr> 2
         ([\<lparr>c_status = OPEN, c_content = ''A''\<rparr>], 1, False)"
proof -
  let ?c = "\<lparr>c_status = OPEN, c_content = ''A''\<rparr>"
  let ?st = "([?c], 1::int, False)"
  have h: "int (length (c_content ?c)) \<le> 2" by simp
  have h': "int (length (c_content ?c)) \<le> 1" by simp
  have q: "find_successors two_reads ''A'' 1 = Returns [(''C'', 1), (''G'', 1)]" by code_simp
  have r: "attempt example_config two_reads ?c 2 ?st
             = Returns (Next ([\<lparr>c_status = OPEN, c_content = ''AG''\<rparr>,
                               \<lparr>c_status = OPEN, c_content = ''AC''\<rparr>], 2, True))"
    by code_simp
  from short_content_whole_query [OF h, of example_config two_reads ?st]
  have a: "py_suffix (c_content ?c) 2 = c_content ?c"
    and e: "attempt example_config two_reads ?c 2 ?st
             = and_then (find_successors two_reads (c_content ?c) (successor_length example_config))
                 (select_extension example_config ?c ?st)"
    and b: "\<forall>k'. int (length (c_content ?c)) \<le> k' \<longrightarrow>
               attempt example_config two_reads ?c k' ?st
               = attempt example_config two_reads ?c 2 ?st"
    by blast+
  from b h' have "attempt example_config two_reads ?c 1 ?st
               = attempt example_config two_reads ?c 2 ?st"
    by blast
  with a e h q r show ?thesis by simp
qed

subsection \<open>Collections without open fragments\<close>

lemma while_loop_empty_stack: "stack s = [] \<Longrightarrow> while_loop fuel cfg database i s = Returns s"
  by (cases fuel) simp_all

lemma append_content_Nil: "append_content arr i [] = arr"
  by (simp add: append_content_def)

lemma process_no_open:
  assumes "\<forall>c \<in> set (sc_content (arr ! i)). c_status c \<noteq> OPEN"
  shows "process fuel cfg database i f arr = Returns (f, arr)"
proof -
  have a: "filter (\<lambda>x. c_status x = OPEN) (sc_content (arr ! i)) = []"
    using assms by (simp add: filter_empty_conv)
  have b: "filter (\<lambda>x. c_status x \<noteq> OPEN) (sc_content (arr ! i)) = sc_content (arr ! i)"
    using assms by (simp add: filter_id_conv)
  show ?thesis
    by (simp add: process_def a b while_loop_empty_stack append_content_Nil)
qed

lemma start_from_no_open:
  assumes "\<forall>sc \<in> set arr. \<forall>c \<in> set (sc_content sc). c_status c \<noteq> OPEN"
    and "\<forall>i \<in> set indices. i < length arr"
  shows "start_from fuel cfg database indices f arr = Returns arr"
  using assms(2)
proof (induction indices arbitrary: f)
  case Nil
  show ?case by simp
next
  case (Cons i rest)
  then have "i < length arr" by simp
  then have "\<forall>c \<in> set (sc_content (arr ! i)). c_status c \<noteq> OPEN"
    using assms(1) nth_mem by blast
  then have "process fuel cfg database i (tick f) arr = Returns (tick f, arr)"
    by (rule process_no_open)
  then show ?case using Cons by simp
qed

text \<open>
  Claim C8. On a collection in which no fragment has status OPEN, \<open>start\<close> returns,
  whatever the bound on the passes, the configuration, the corpus and the stop flag,
  and leaves the collection as it was.
\<close>

theorem start_without_open_fragments:
  assumes "\<forall>sc \<in> set arr. \<forall>c \<in> set (sc_content sc). c_status c \<noteq> OPEN"
  shows "start fuel cfg database f arr = Returns arr"
  unfolding start_def using assms by (intro start_from_no_open) simp_all

theorem start_without_open_fragments_witness:
  "list_all (\<lambda>sc. list_all (\<lambda>c. c_status c \<noteq> OPEN) (sc_content sc)) finalized_collection
   \<and> start 3 example_config two_reads None finalized_collection = Returns finalized_collection"
proof -
  have h: "\<forall>sc \<in> set finalized_collection. \<forall>c \<in> set (sc_content sc). c_status c \<noteq> OPEN"
    by (simp add: finalized_collection_def statuses_distinct)
  then have "list_all (\<lambda>sc. list_all (\<lambda>c. c_status c \<noteq> OPEN) (sc_content sc))
               finalized_collection"
    by (simp add: list_all_iff)
  with start_without_open_fragments [OF h] show ?thesis by blast
qed

subsection \<open>Inspection at the top of the stack\<close>

lemma append_content_length [simp]: "length (append_content arr i cs) = length arr"
  by (simp add: append_content_def)

lemma append_content_nth_same:
  "i < length arr \<Longrightarrow> sc_content (append_content arr i cs ! i) = sc_content (arr ! i) @ cs"
  by (simp add: append_content_def)

lemma inspect_content [simp]: "c_content (inspect cfg arr c) = c_content c"
  by (simp add: inspect_def Let_def)


lemma loop_body_array:
  assumes "loop_body cfg database i s = Returns s'"
  shows "array s' = array s
         \<or> (c_status (inspect cfg (array s) (last (stack s))) \<noteq> OPEN
            \<and> array s' = append_content (array s) i [inspect cfg (array s) (last (stack s))]
            \<and> stack s' = butlast (stack s))"
  using assms
  by (auto simp: loop_body_def Let_def and_then_Returns_iff split: if_splits option.splits)

lemma loop_body_content_prefix:
  assumes "loop_body cfg database i s = Returns s'" "i < length (array s)"
  shows "length (array s') = length (array s)
         \<and> prefix (sc_content (array s ! i)) (sc_content (array s' ! i))"
  using loop_body_array [OF assms(1)] assms(2)
  by (auto simp: append_content_nth_same)

lemma while_loop_content_prefix:
  assumes "while_loop fuel cfg database i s = Returns s'" "i < length (array s)"
  shows "length (array s') = length (array s)
         \<and> prefix (sc_content (array s ! i)) (sc_content (array s' ! i))"
  using assms
proof (induction fuel arbitrary: s)
  case 0
  then show ?case by (auto split: if_splits)
next
  case (Suc fuel)
  show ?case
  proof (cases "stack s = [] \<or> isStopped (flag s)")
    case True
    then show ?thesis using Suc.prems by (auto split: if_splits)
  next
    case False
    then obtain s1 where b: "loop_body cfg database i (s\<lparr>flag := tick (flag s)\<rparr>) = Returns s1"
      and w: "while_loop fuel cfg database i s1 = Returns s'"
      using Suc.prems(1) by (auto simp: and_then_Returns_iff)
    from loop_body_content_prefix [OF b] Suc.prems(2)
    have l1: "length (array s1) = length (array s)"
      and p1: "prefix (sc_content (array s ! i)) (sc_content (array s1 ! i))" by simp_all
    from Suc.IH [OF w] l1 Suc.prems(2)
    have "length (array s') = length (array s1)"
      and "prefix (sc_content (array s1 ! i)) (sc_content (array s' ! i))" by simp_all
    with l1 p1 show ?thesis by (auto intro: prefix_order.trans)
  qed
qed




subsection \<open>The loop-closure test\<close>

lemma nucleotide_hash [simp]: "\<not> nucleotide CHR ''#''"
  by (simp add: nucleotide_def)

lemma op_match_iff_ex:
  "op_match omin omax s \<longleftrightarrow>
     (\<exists>k. omin \<le> k \<and> k \<le> omax \<and> k < length s \<and> list_all nucleotide (take k s)
          \<and> s ! k = CHR ''#'' \<and> k \<le> length (drop (Suc k) s)
          \<and> take k (drop (Suc k) s) = take k s)"
  unfolding op_match_def list_ex_iff by auto

lemma op_match_whole:
  assumes "list_all nucleotide x" "omin \<le> length x" "length x \<le> omax" "prefix x h"
  shows "op_match omin omax (x @ ''#'' @ h)"
proof -
  obtain t where h: "h = x @ t" using assms(4) by (auto simp: prefix_def)
  show ?thesis unfolding op_match_iff_ex
    by (rule exI [of _ "length x"]) (use assms h in \<open>simp add: nth_append\<close>)
qed

lemma op_match_inner:
  assumes "list_all nucleotide p" "omin \<le> length p" "length p \<le> omax"
  shows "op_match omin omax ((p @ ''#'' @ p @ r) @ ''#'' @ h)"
  unfolding op_match_iff_ex
  by (rule exI [of _ "length p"]) (use assms in \<open>simp add: nth_append\<close>)

lemma op_match_cases:
  assumes "op_match omin omax (x @ ''#'' @ h)"
  shows "(list_all nucleotide x \<and> omin \<le> length x \<and> length x \<le> omax \<and> prefix x h)
         \<or> (\<exists>p r. x = p @ ''#'' @ p @ r \<and> list_all nucleotide p
                  \<and> omin \<le> length p \<and> length p \<le> omax)"
proof -
  let ?s = "x @ ''#'' @ h"
  from assms obtain k where k: "omin \<le> k" "k \<le> omax" "k < length ?s"
    and nuc: "list_all nucleotide (take k ?s)" and hash: "?s ! k = CHR ''#''"
    and len: "k \<le> length (drop (Suc k) ?s)"
    and rep: "take k (drop (Suc k) ?s) = take k ?s"
    unfolding op_match_iff_ex by blast
  consider "k < length x" | "k = length x" | "length x < k" by linarith
  then show ?thesis
  proof cases
    case 3
    then have "?s ! length x \<in> set (take k ?s)"
      using k(3) by (metis in_set_conv_nth length_take min.absorb2 nth_take order_less_imp_le)
    moreover have "?s ! length x = CHR ''#''" by (simp add: nth_append)
    ultimately have "CHR ''#'' \<in> set (take k ?s)" by metis
    then have "nucleotide CHR ''#''" using nuc unfolding list_all_iff by blast
    then show ?thesis by simp
  next
    case 2
    then have "take k ?s = x" "drop (Suc k) ?s = h" by simp_all
    then have "list_all nucleotide x" "take (length x) h = x" "length x \<le> length h"
      using nuc rep len 2 by simp_all
    then have "prefix x h" by (metis take_is_prefix)
    then show ?thesis using k 2 \<open>list_all nucleotide x\<close> by simp
  next
    case 1
    let ?p = "take k x" and ?r = "drop (Suc k) x"
    have xk: "x ! k = CHR ''#''" using hash 1 by (simp add: nth_append)
    have x: "x = ?p @ ''#'' @ ?r" using id_take_nth_drop [OF 1] xk by simp
    have tk: "take k ?s = ?p" using 1 by simp
    have dk: "drop (Suc k) ?s = ?r @ ''#'' @ h" using 1 by simp
    have pn: "list_all nucleotide ?p" using nuc tk by simp
    have lp: "length ?p = k" using 1 by simp
    have rp: "take k (?r @ ''#'' @ h) = ?p" using rep tk dk by simp
    have "k \<le> length ?r"
    proof (rule ccontr)
      assume "\<not> k \<le> length ?r"
      then have lt: "length ?r < k" by simp
      then have "take k (?r @ ''#'' @ h) ! length ?r = CHR ''#''"
        by (simp add: nth_append)
      then have "?p ! length ?r = CHR ''#''" using rp by simp
      moreover have "?p ! length ?r \<in> set ?p" using lt lp by (metis nth_mem)
      ultimately have "CHR ''#'' \<in> set ?p" by metis
      then have "nucleotide CHR ''#''" using pn unfolding list_all_iff by blast
      then show False by simp
    qed
    then have "take k ?r = ?p" using rp by simp
    then have "?r = ?p @ drop k ?r" by (metis append_take_drop_id)
    then have "x = ?p @ ''#'' @ ?p @ drop k ?r" using x by metis
    moreover have "omin \<le> length ?p" "length ?p \<le> omax" using lp k by simp_all
    ultimately have "\<exists>p r. x = p @ ''#'' @ p @ r \<and> list_all nucleotide p
                  \<and> omin \<le> length p \<and> length p \<le> omax"
      using pn by (intro exI [of _ ?p] exI [of _ "drop k ?r"]) blast
    then show ?thesis by blast
  qed
qed

lemma op_match_iff:
  "op_match omin omax (x @ ''#'' @ h) \<longleftrightarrow>
     (list_all nucleotide x \<and> omin \<le> length x \<and> length x \<le> omax \<and> prefix x h)
     \<or> (\<exists>p r. x = p @ ''#'' @ p @ r \<and> list_all nucleotide p
              \<and> omin \<le> length p \<and> length p \<le> omax)"
  using op_match_cases op_match_whole op_match_inner by blast

text \<open>
  Claim C4, as the code has it. \<open>is_overlapping_contig\<close> is true exactly if some
  supercontig of the collection has a non-empty content and either the whole content of
  the fragment consists of the upper-case letters A, C, G, T only, has a length within
  the overlap bounds and is a prefix of the head fragment of that supercontig, or the
  content of the fragment itself begins with \<open>p#p\<close> for a string \<open>p\<close> of letters
  A, C, G, T with a length within the bounds.
\<close>

theorem is_overlapping_contig_iff:
  "is_overlapping_contig cfg arr contig \<longleftrightarrow>
     (\<exists>supercontig \<in> set arr. sc_content supercontig \<noteq> [] \<and>
        ((list_all nucleotide (c_content contig)
          \<and> overlapping_min cfg \<le> length (c_content contig)
          \<and> length (c_content contig) \<le> overlapping_max cfg
          \<and> prefix (c_content contig) (c_content (hd (sc_content supercontig))))
         \<or> (\<exists>p r. c_content contig = p @ ''#'' @ p @ r \<and> list_all nucleotide p
                  \<and> overlapping_min cfg \<le> length p \<and> length p \<le> overlapping_max cfg)))"
  unfolding is_overlapping_contig_def list_ex_iff op_match_iff by blast

theorem is_overlapping_contig_iff_witness:
  "(\<exists>supercontig \<in> set closed_and_open. sc_content supercontig \<noteq> [] \<and>
      list_all nucleotide ''AC'' \<and> overlapping_min overlap_config \<le> length ''AC''
      \<and> length ''AC'' \<le> overlapping_max overlap_config
      \<and> prefix ''AC'' (c_content (hd (sc_content supercontig))))
   \<and> is_overlapping_contig overlap_config closed_and_open \<lparr>c_status = OPEN, c_content = ''AC''\<rparr>"
proof -
  let ?sc = "\<lparr>sc_status = CLOSED, sc_content = [\<lparr>c_status = OPEN, c_content = ''AC''\<rparr>]\<rparr>"
  have m: "?sc \<in> set closed_and_open" by (simp add: closed_and_open_def)
  have p: "sc_content ?sc \<noteq> [] \<and>
      list_all nucleotide ''AC'' \<and> overlapping_min overlap_config \<le> length ''AC''
      \<and> length ''AC'' \<le> overlapping_max overlap_config
      \<and> prefix ''AC'' (c_content (hd (sc_content ?sc)))"
    by (simp add: nucleotide_def overlap_config_def example_config_def)
  from m p have h: "\<exists>supercontig \<in> set closed_and_open. sc_content supercontig \<noteq> [] \<and>
      list_all nucleotide ''AC'' \<and> overlapping_min overlap_config \<le> length ''AC''
      \<and> length ''AC'' \<le> overlapping_max overlap_config
      \<and> prefix ''AC'' (c_content (hd (sc_content supercontig)))" by blast
  then have "is_overlapping_contig overlap_config closed_and_open
               \<lparr>c_status = OPEN, c_content = ''AC''\<rparr>"
    using is_overlapping_contig_iff [of overlap_config closed_and_open
            "\<lparr>c_status = OPEN, c_content = ''AC''\<rparr>"]
    unfolding contig.simps by blast
  with h show ?thesis by blast
qed

text \<open>
  Claim C4 as stated fails: the lower-case content \<open>ac\<close> has a length within the bounds
  1 to 5 and is identical to the head fragment \<open>ac\<close> of a supercontig, and the test is
  false, because the pattern admits the upper-case letters A, C, G, T only.
\<close>

theorem lower_case_never_overlaps:
  "overlapping_min overlap_config \<le> length ''ac'' \<and> length ''ac'' \<le> overlapping_max overlap_config
   \<and> take (length ''ac'') (c_content (hd [\<lparr>c_status = OPEN, c_content = ''ac''\<rparr>])) = ''ac''
   \<and> \<not> is_overlapping_contig overlap_config
          [\<lparr>sc_status = CLOSED, sc_content = [\<lparr>c_status = OPEN, c_content = ''ac''\<rparr>]\<rparr>]
          \<lparr>c_status = OPEN, c_content = ''ac''\<rparr>"
  by code_simp

subsection \<open>Successor inference\<close>

lemma tally_sum: "sum_list (map snd (tally s t)) = Suc (sum_list (map snd t))"
  by (induction t) auto

lemma fold_tally_sum:
  "sum_list (map snd (fold tally xs t)) = length xs + sum_list (map snd t)"
  by (induction xs arbitrary: t) (simp_all add: tally_sum)

lemma fold_reads_sum:
  "sum_list (map snd (fold (\<lambda>read successors. fold tally (findall sfx n read) successors) database t))
     = (\<Sum>read\<leftarrow>database. length (findall sfx n read)) + sum_list (map snd t)"
  by (induction database arbitrary: t) (simp_all add: fold_tally_sum)

lemma findall_zero_occurrences_aux:
  "n = 0 \<Longrightarrow> length (findall sfx n s) = occurrences sfx s"
  by (induction sfx n s rule: findall.induct) (simp_all add: match_at_def)

lemma findall_zero_occurrences: "length (findall sfx 0 s) = occurrences sfx s"
  by (simp add: findall_zero_occurrences_aux)

lemma find_successors_plain:
  assumes "list_all (\<lambda>c. \<not> metachar c) sfx" and "int n < MAXREPEAT"
  shows "find_successors database sfx n =
           Returns (fold (\<lambda>read successors. fold tally (findall sfx n read) successors) database [])"
  using assms by (simp add: find_successors_def compile_suffix_def list_all_iff)

lemma length_findall_positions:
  "length (findall_positions sfx n s) = length (findall sfx n s)"
  by (induction sfx n s rule: findall.induct) simp_all

lemma match_at_counted: "match_at sfx n s \<longleftrightarrow> counted_at sfx n s 0"
  by (auto simp: match_at_def counted_at_def list_all_iff)

lemma counted_at_drop:
  assumes "m \<le> length s"
  shows "counted_at sfx n (drop m s) p \<longleftrightarrow> counted_at sfx n s (p + m)"
proof -
  have "p + length sfx + n \<le> length s - m \<longleftrightarrow> p + m + length sfx + n \<le> length s"
    using assms by linarith
  moreover have "drop (p + length sfx) (drop m s) = drop (p + m + length sfx) s"
    by (simp add: add.commute add.left_commute)
  ultimately show ?thesis by (simp add: counted_at_def)
qed

lemma span_pos: "0 < span sfx n"
  by (simp add: span_def)

lemma match_positions_iff:
  "match_positions sfx n s ps \<longleftrightarrow>
     sorted_wrt (\<lambda>p q. p + span sfx n \<le> q) ps
     \<and> (\<forall>p \<in> set ps. counted_at sfx n s p)
     \<and> (\<forall>q. counted_at sfx n s q \<longrightarrow> (\<exists>p \<in> set ps. p \<le> q \<and> q < p + span sfx n))"
proof -
  have "q \<in> set [0..<Suc (length s)]" if "counted_at sfx n s q" for q
    using that by (simp add: counted_at_def del: upt_Suc)
  then show ?thesis
    unfolding match_positions_def list_all_iff list_ex_iff by blast
qed

lemma positions_shift_up:
  assumes "m \<le> length s" and "match_positions sfx n (drop m s) qs"
  shows "sorted_wrt (\<lambda>p q. p + span sfx n \<le> q) (map (\<lambda>p. p + m) qs)"
    and "\<forall>p \<in> set (map (\<lambda>p. p + m) qs). counted_at sfx n s p \<and> m \<le> p"
    and "\<forall>q. counted_at sfx n s q \<and> m \<le> q
             \<longrightarrow> (\<exists>p \<in> set (map (\<lambda>p. p + m) qs). p \<le> q \<and> q < p + span sfx n)"
proof -
  from assms(2) have srt: "sorted_wrt (\<lambda>p q. p + span sfx n \<le> q) qs"
    and cnt: "\<forall>p \<in> set qs. counted_at sfx n (drop m s) p"
    and cov: "\<forall>q. counted_at sfx n (drop m s) q
                 \<longrightarrow> (\<exists>p \<in> set qs. p \<le> q \<and> q < p + span sfx n)"
    unfolding match_positions_iff by blast+
  show "sorted_wrt (\<lambda>p q. p + span sfx n \<le> q) (map (\<lambda>p. p + m) qs)"
    using srt by (simp add: sorted_wrt_map)
  show "\<forall>p \<in> set (map (\<lambda>p. p + m) qs). counted_at sfx n s p \<and> m \<le> p"
    using cnt counted_at_drop [OF assms(1)] by auto
  show "\<forall>q. counted_at sfx n s q \<and> m \<le> q
             \<longrightarrow> (\<exists>p \<in> set (map (\<lambda>p. p + m) qs). p \<le> q \<and> q < p + span sfx n)"
  proof (intro allI impI)
    fix q assume q: "counted_at sfx n s q \<and> m \<le> q"
    then have "counted_at sfx n (drop m s) (q - m)"
      using counted_at_drop [OF assms(1), of sfx n "q - m"] by simp
    with cov obtain p where "p \<in> set qs" "p \<le> q - m" "q - m < p + span sfx n" by blast
    then have "p + m \<in> set (map (\<lambda>p. p + m) qs)" "p + m \<le> q" "q < p + m + span sfx n"
      using q by auto
    then show "\<exists>p \<in> set (map (\<lambda>p. p + m) qs). p \<le> q \<and> q < p + span sfx n" by blast
  qed
qed

lemma positions_shift_down:
  assumes "m \<le> length s"
    and "sorted_wrt (\<lambda>p q. p + span sfx n \<le> q) ps"
    and "\<forall>p \<in> set ps. counted_at sfx n s p \<and> m \<le> p"
    and "\<forall>q. counted_at sfx n s q \<and> m \<le> q
             \<longrightarrow> (\<exists>p \<in> set ps. p \<le> q \<and> q < p + span sfx n)"
  shows "match_positions sfx n (drop m s) (map (\<lambda>p. p - m) ps)"
    and "map (\<lambda>p. p + m) (map (\<lambda>p. p - m) ps) = ps"
proof -
  show "map (\<lambda>p. p + m) (map (\<lambda>p. p - m) ps) = ps"
    using assms(3) by (simp add: map_idI)
  have srt: "sorted_wrt (\<lambda>p q. (p - m) + span sfx n \<le> q - m) ps"
    using assms(2)
  proof (rule sorted_wrt_mono_rel [rotated])
    fix p q assume "p \<in> set ps" "q \<in> set ps" "p + span sfx n \<le> q"
    then show "(p - m) + span sfx n \<le> q - m" using assms(3) by auto
  qed
  have cnt: "\<forall>p \<in> set (map (\<lambda>p. p - m) ps). counted_at sfx n (drop m s) p"
    using assms(3) counted_at_drop [OF assms(1), of sfx n] by auto
  have cov: "\<forall>q. counted_at sfx n (drop m s) q
               \<longrightarrow> (\<exists>p \<in> set (map (\<lambda>p. p - m) ps). p \<le> q \<and> q < p + span sfx n)"
  proof (intro allI impI)
    fix q assume "counted_at sfx n (drop m s) q"
    then have "counted_at sfx n s (q + m) \<and> m \<le> q + m"
      using counted_at_drop [OF assms(1)] by simp
    with assms(4) obtain p where p: "p \<in> set ps" "p \<le> q + m" "q + m < p + span sfx n"
      by blast
    moreover have "m \<le> p" using assms(3) p(1) by blast
    ultimately have "p - m \<in> set (map (\<lambda>p. p - m) ps)" "p - m \<le> q" "q < (p - m) + span sfx n"
      by auto
    then show "\<exists>p \<in> set (map (\<lambda>p. p - m) ps). p \<le> q \<and> q < p + span sfx n" by blast
  qed
  show "match_positions sfx n (drop m s) (map (\<lambda>p. p - m) ps)"
    unfolding match_positions_iff using srt cnt cov by (simp add: sorted_wrt_map)
qed

lemma drop_behind_match:
  "drop (length sfx + n - 1) cs = drop (span sfx n) (c # cs)"
  by (cases "length sfx + n") (simp_all add: span_def)

lemma findall_positions_are_match_positions:
  "match_positions sfx n s (findall_positions sfx n s)"
proof (induction sfx n s rule: findall_positions.induct)
  case (1 sfx n)
  show ?case by (auto simp: match_positions_iff counted_at_def span_def)
next
  case (2 sfx n c cs)
  let ?s = "c # cs"
  show ?case
  proof (cases "match_at sfx n ?s")
    case True
    let ?m = "span sfx n"
    let ?qs = "findall_positions sfx n (drop ?m ?s)"
    have c0: "counted_at sfx n ?s 0" using True by (simp add: match_at_counted)
    then have m: "?m \<le> length ?s" by (simp add: counted_at_def span_def)
    have "match_positions sfx n (drop ?m ?s) ?qs"
      using 2(1) [OF True] unfolding drop_behind_match [of sfx n cs c] .
    note up = positions_shift_up [OF m this]
    have eq: "findall_positions sfx n ?s = 0 # map (\<lambda>p. p + ?m) ?qs"
      using True unfolding drop_behind_match [of sfx n cs c, symmetric] by simp
    have "sorted_wrt (\<lambda>p q. p + ?m \<le> q) (0 # map (\<lambda>p. p + ?m) ?qs)"
      using up(1,2) by simp
    moreover have "\<forall>p \<in> set (0 # map (\<lambda>p. p + ?m) ?qs). counted_at sfx n ?s p"
      using up(2) c0 by simp
    moreover have "\<forall>q. counted_at sfx n ?s q
        \<longrightarrow> (\<exists>p \<in> set (0 # map (\<lambda>p. p + ?m) ?qs). p \<le> q \<and> q < p + ?m)"
    proof (intro allI impI)
      fix q assume q: "counted_at sfx n ?s q"
      show "\<exists>p \<in> set (0 # map (\<lambda>p. p + ?m) ?qs). p \<le> q \<and> q < p + ?m"
      proof (cases "q < ?m")
        case True
        then show ?thesis by simp
      next
        case False
        with q up(3) obtain p where "p \<in> set (map (\<lambda>p. p + ?m) ?qs)" "p \<le> q" "q < p + ?m"
          by (meson not_less)
        then show ?thesis by (meson list.set_intros(2))
      qed
    qed
    ultimately show ?thesis unfolding eq match_positions_iff by blast
  next
    case False
    let ?qs = "findall_positions sfx n cs"
    have n0: "\<not> counted_at sfx n ?s 0" using False by (simp add: match_at_counted)
    have "match_positions sfx n (drop 1 ?s) ?qs" using 2(2) [OF False] by simp
    note up = positions_shift_up [of 1 ?s, OF _ this]
    have eq: "findall_positions sfx n ?s = map (\<lambda>p. p + 1) ?qs"
      using False by simp
    have "\<forall>q. counted_at sfx n ?s q
        \<longrightarrow> (\<exists>p \<in> set (map (\<lambda>p. p + 1) ?qs). p \<le> q \<and> q < p + span sfx n)"
    proof (intro allI impI)
      fix q assume q: "counted_at sfx n ?s q"
      then have "1 \<le> q" using n0 by (cases q) auto
      with q up(3) show "\<exists>p \<in> set (map (\<lambda>p. p + 1) ?qs). p \<le> q \<and> q < p + span sfx n"
        by simp
    qed
    then show ?thesis unfolding eq match_positions_iff using up(1,2) by simp
  qed
qed

lemma match_positions_unique:
  "match_positions sfx n s ps \<Longrightarrow> ps = findall_positions sfx n s"
proof (induction sfx n s arbitrary: ps rule: findall_positions.induct)
  case (1 sfx n)
  from 1 have srt: "sorted_wrt (\<lambda>p q. p + span sfx n \<le> q) ps"
    and cnt: "\<forall>p \<in> set ps. counted_at sfx n [] p"
    and cov: "\<forall>q. counted_at sfx n [] q \<longrightarrow> (\<exists>p \<in> set ps. p \<le> q \<and> q < p + span sfx n)"
    unfolding match_positions_iff by blast+
  have c: "counted_at sfx n [] p \<longleftrightarrow> p = 0 \<and> sfx = [] \<and> n = 0" for p
    by (auto simp: counted_at_def)
  show ?case
  proof (cases "sfx = [] \<and> n = 0")
    case True
    then have "0 \<in> set ps" using cov c by force
    moreover have "\<forall>p \<in> set ps. p = 0" using cnt c by blast
    ultimately obtain xs where ps: "ps = 0 # xs" by (cases ps) auto
    have "xs = []"
    proof (rule ccontr)
      assume "xs \<noteq> []"
      then obtain y where y: "y \<in> set xs" by (cases xs) auto
      then have "0 + span sfx n \<le> y" using srt ps by simp
      moreover have "y = 0" using \<open>\<forall>p \<in> set ps. p = 0\<close> y ps by simp
      ultimately show False using span_pos [of sfx n] by simp
    qed
    then show ?thesis using True ps by simp
  next
    case False
    then have "ps = []" using cnt c by (cases ps) auto
    then show ?thesis using False by auto
  qed
next
  case (2 sfx n c cs)
  let ?s = "c # cs"
  from 2(3) have srt: "sorted_wrt (\<lambda>p q. p + span sfx n \<le> q) ps"
    and cnt: "\<forall>p \<in> set ps. counted_at sfx n ?s p"
    and cov: "\<forall>q. counted_at sfx n ?s q \<longrightarrow> (\<exists>p \<in> set ps. p \<le> q \<and> q < p + span sfx n)"
    unfolding match_positions_iff by blast+
  show ?case
  proof (cases "match_at sfx n ?s")
    case True
    let ?m = "span sfx n"
    have c0: "counted_at sfx n ?s 0" using True by (simp add: match_at_counted)
    then have m: "?m \<le> length ?s" by (simp add: counted_at_def span_def)
    from c0 cov have in0: "0 \<in> set ps" by force
    then obtain x xs where ps: "ps = x # xs" by (cases ps) auto
    have gap: "\<forall>y \<in> set xs. x + ?m \<le> y" and srt': "sorted_wrt (\<lambda>p q. p + ?m \<le> q) xs"
      using srt ps by simp_all
    have x0: "x = 0"
    proof (rule ccontr)
      assume "x \<noteq> 0"
      with in0 ps have "0 \<in> set xs" by simp
      with gap have "x + ?m \<le> 0" by blast
      then show False using span_pos [of sfx n] by simp
    qed
    have big: "\<forall>p \<in> set xs. counted_at sfx n ?s p \<and> ?m \<le> p"
      using cnt ps gap x0 by simp
    have cov': "\<forall>q. counted_at sfx n ?s q \<and> ?m \<le> q
                 \<longrightarrow> (\<exists>p \<in> set xs. p \<le> q \<and> q < p + ?m)"
    proof (intro allI impI)
      fix q assume q: "counted_at sfx n ?s q \<and> ?m \<le> q"
      with cov obtain p where p: "p \<in> set ps" "p \<le> q" "q < p + ?m" by blast
      then have "p \<noteq> 0" using q by auto
      with p ps x0 have "p \<in> set xs" by simp
      with p show "\<exists>p \<in> set xs. p \<le> q \<and> q < p + ?m" by blast
    qed
    note down = positions_shift_down [OF m srt' big cov']
    have "map (\<lambda>p. p - ?m) xs = findall_positions sfx n (drop (length sfx + n - 1) cs)"
      using 2(1) [OF True] down(1) unfolding drop_behind_match [of sfx n cs c] .
    then have "xs = map (\<lambda>p. p + ?m) (findall_positions sfx n (drop (length sfx + n - 1) cs))"
      using down(2) by simp
    then show ?thesis using True ps x0 by simp
  next
    case False
    have n0: "\<not> counted_at sfx n ?s 0" using False by (simp add: match_at_counted)
    have big: "\<forall>p \<in> set ps. counted_at sfx n ?s p \<and> 1 \<le> p"
    proof
      fix p assume "p \<in> set ps"
      then have "counted_at sfx n ?s p" using cnt by blast
      moreover from this n0 have "1 \<le> p" by (cases p) auto
      ultimately show "counted_at sfx n ?s p \<and> 1 \<le> p" by blast
    qed
    have cov': "\<forall>q. counted_at sfx n ?s q \<and> 1 \<le> q
                 \<longrightarrow> (\<exists>p \<in> set ps. p \<le> q \<and> q < p + span sfx n)"
      using cov by blast
    note down = positions_shift_down [of 1 ?s, OF _ srt big cov']
    have "map (\<lambda>p. p - 1) ps = findall_positions sfx n cs"
      using 2(2) [OF False] down(1) by simp
    then have "ps = map (\<lambda>p. p + 1) (findall_positions sfx n cs)"
      using down(2) by simp
    then show ?thesis using False by simp
  qed
qed

lemma match_positions_all_reads:
  "list_all2 (match_positions sfx n) database (map (findall_positions sfx n) database)"
  by (induction database) (simp_all add: findall_positions_are_match_positions)

lemma match_positions_all_reads_unique:
  "list_all2 (match_positions sfx n) database pss \<Longrightarrow> pss = map (findall_positions sfx n) database"
  by (induction database pss rule: list_all2_induct) (simp_all add: match_positions_unique)

lemma sum_length_positions:
  "sum_list (map length (map (findall_positions sfx n) database))
     = (\<Sum>read\<leftarrow>database. length (findall sfx n read))"
  by (induction database) (simp_all add: length_findall_positions)

text \<open>
  Claim C3, as the code has it. For a suffix without regular-expression metacharacters,
  every window length below the bound of the \<open>re\<close> module and every corpus,
  \<open>find_successors\<close> returns a table whose counts sum to the number of match positions
  of all reads. The match positions of a read are determined by three conditions that do
  not refer to the scan: at each of them the suffix occurs, up to letter case, with \<open>n\<close>
  characters other than a newline behind it inside the read; each lies behind the suffix
  and the window of the one before; and every further position with these properties
  lies inside the suffix or the window of a match. So an occurrence of the suffix with
  fewer than \<open>n\<close> such characters behind it is not counted, and one that starts inside an
  earlier match or its window is not counted. For the window length 0 the sum is the
  number of non-overlapping occurrences of the suffix.
\<close>

theorem find_successors_counts_matches:
  assumes "list_all (\<lambda>c. \<not> metachar c) sfx" and "int n < MAXREPEAT"
  shows "\<exists>t. find_successors database sfx n = Returns t
             \<and> (\<exists>pss. list_all2 (match_positions sfx n) database pss
                       \<and> sum_list (map snd t) = sum_list (map length pss))
             \<and> (\<forall>pss. list_all2 (match_positions sfx n) database pss
                       \<longrightarrow> sum_list (map snd t) = sum_list (map length pss))
             \<and> sum_list (map snd t) = (\<Sum>read\<leftarrow>database. length (findall sfx n read))
             \<and> (n = 0 \<longrightarrow> sum_list (map snd t) = (\<Sum>read\<leftarrow>database. occurrences sfx read))"
proof -
  let ?t = "fold (\<lambda>read successors. fold tally (findall sfx n read) successors) database []"
  let ?pss = "map (findall_positions sfx n) database"
  have r: "find_successors database sfx n = Returns ?t"
    using assms by (rule find_successors_plain)
  have s: "sum_list (map snd ?t) = (\<Sum>read\<leftarrow>database. length (findall sfx n read))"
    by (simp add: fold_reads_sum)
  have p: "sum_list (map snd ?t) = sum_list (map length ?pss)"
    unfolding s sum_length_positions ..
  have e: "\<exists>pss. list_all2 (match_positions sfx n) database pss
                 \<and> sum_list (map snd ?t) = sum_list (map length pss)"
    using match_positions_all_reads p by blast
  have u: "\<forall>pss. list_all2 (match_positions sfx n) database pss
                 \<longrightarrow> sum_list (map snd ?t) = sum_list (map length pss)"
    using match_positions_all_reads_unique p by blast
  have z: "n = 0 \<longrightarrow> sum_list (map snd ?t) = (\<Sum>read\<leftarrow>database. occurrences sfx read)"
    unfolding s by (simp add: findall_zero_occurrences)
  from r e u s z show ?thesis by blast
qed

text \<open>Two reads with five occurrences of the suffix A, three of them counted: in AAA
  the second A is the window of the first and the third has nothing behind it; in aCAgA
  the last A has nothing behind it.\<close>

theorem find_successors_counts_matches_witness:
  "list_all (\<lambda>c. \<not> metachar c) ''A'' \<and> int 1 < MAXREPEAT
   \<and> find_successors [''AAA'', ''aCAgA''] ''A'' 1 = Returns [(''A'', 1), (''C'', 1), (''g'', 1)]
   \<and> list_all2 (match_positions ''A'' 1) [''AAA'', ''aCAgA''] [[0], [0, 2]]
   \<and> sum_list (map snd [(''A'', 1::nat), (''C'', 1), (''g'', 1)])
       = sum_list (map length [[0::nat], [0, 2]])"
proof -
  let ?db = "[''AAA'', ''aCAgA'']"
  have h: "list_all (\<lambda>c. \<not> metachar c) ''A''" by (simp add: metachar_def)
  have h': "int 1 < MAXREPEAT" by (simp add: MAXREPEAT_def)
  have e: "find_successors ?db ''A'' 1 = Returns [(''A'', 1), (''C'', 1), (''g'', 1)]"
    by code_simp
  have m: "list_all2 (match_positions ''A'' 1) ?db [[0], [0, 2]]" by code_simp
  from find_successors_counts_matches [OF h h', of ?db]
  obtain t where t: "find_successors ?db ''A'' 1 = Returns t"
    and u: "\<forall>pss. list_all2 (match_positions ''A'' 1) ?db pss
                 \<longrightarrow> sum_list (map snd t) = sum_list (map length pss)"
    by blast
  from t e have "t = [(''A'', 1), (''C'', 1), (''g'', 1)]" by simp
  with u m have "sum_list (map snd [(''A'', 1::nat), (''C'', 1), (''g'', 1)])
       = sum_list (map length [[0::nat], [0, 2]])" by blast
  with h h' e m show ?thesis by blast
qed

text \<open>
  Claim C3 as stated fails. In the read AAA the suffix A occurs three times without
  overlap, and the table for the window length 1 counts one successor: the match at the
  first A takes the second A as its window, and the third A has nothing behind it.
  And for the suffix \<open>(\<close> there is no table at all: \<open>re.compile\<close> raises.
\<close>

theorem counts_differ_from_occurrences:
  "find_successors [''AAA''] ''A'' 1 = Returns [(''A'', 1)]
   \<and> sum_list (map snd [(''A'', 1::nat)]) \<noteq> (\<Sum>read\<leftarrow>[''AAA'']. occurrences ''A'' read)
   \<and> (\<Sum>read\<leftarrow>[''AAA'']. occurrences ''A'' read) = 3
   \<and> find_successors [''AAA''] ''('' 1 = Raises re_error"
  by code_simp

subsection \<open>Characters outside the nucleotide alphabet\<close>

lemma py_suffix_list_all: "list_all P s \<Longrightarrow> list_all P (py_suffix s k)"
  by (auto simp: py_suffix_def list_all_iff dest: in_set_dropD)

lemma regex_safe_simps [simp]:
  "regex_safe (Returns x)" "regex_safe (Raises IndexError)"
  by (simp_all add: regex_safe_def)

lemma attempt_plain:
  assumes "list_all (\<lambda>c. \<not> metachar c) (c_content contig)"
    and "int (successor_length cfg) < MAXREPEAT"
  shows "regex_safe (attempt cfg database contig k st)"
proof -
  obtain stk cnt enhanced where st: "st = (stk, cnt, enhanced)" using prod_cases3 by blast
  have p: "list_all (\<lambda>c. \<not> metachar c) (py_suffix (c_content contig) k)"
    using assms(1) by (rule py_suffix_list_all)
  show ?thesis
    unfolding st attempt_unfold
    by (simp add: find_successors_plain [OF p assms(2)] Let_def branch_def case_prod_beta
          split: option.splits)
qed

lemma suffix_loop_plain:
  assumes "list_all (\<lambda>c. \<not> metachar c) (c_content contig)"
    and "int (successor_length cfg) < MAXREPEAT"
  shows "regex_safe (suffix_loop cfg database contig lengths f st)"
proof (induction lengths arbitrary: f st)
  case Nil
  show ?case by simp
next
  case (Cons k rest)
  show ?case
  proof (cases "attempt cfg database contig k st")
    case (Returns r)
    then show ?thesis using Cons.IH by (cases r) simp_all
  next
    case (Raises e)
    then show ?thesis using attempt_plain [OF assms, of database k st]
      by (cases e) (simp_all add: regex_safe_def)
  next
    case Unmodelled
    then show ?thesis using attempt_plain [OF assms, of database k st]
      by (simp add: regex_safe_def)
  next
    case OutOfFuel
    then show ?thesis using attempt_plain [OF assms, of database k st]
      by (simp add: regex_safe_def)
  qed
qed

lemma findall_chars: "w \<in> set (findall sfx n s) \<Longrightarrow> set w \<subseteq> set s"
proof (induction sfx n s rule: findall.induct)
  case (1 sfx n)
  then show ?case by (auto split: if_splits)
next
  case (2 sfx n c cs)
  show ?case
  proof (cases "match_at sfx n (c # cs)")
    case True
    with 2 have "w = take n (drop (length sfx) (c # cs))
                 \<or> w \<in> set (findall sfx n (drop (length sfx + n - 1) cs))" by simp
    then show ?thesis
    proof
      assume "w = take n (drop (length sfx) (c # cs))"
      then show ?thesis
        using set_take_subset set_drop_subset by (metis order_trans)
    next
      assume "w \<in> set (findall sfx n (drop (length sfx + n - 1) cs))"
      with 2 True have "set w \<subseteq> set (drop (length sfx + n - 1) cs)" by simp
      then show ?thesis using set_drop_subset by fastforce
    qed
  next
    case False
    with 2 show ?thesis by auto
  qed
qed

lemma tally_map_fst:
  "map fst (tally s t) = (if s \<in> set (map fst t) then map fst t else map fst t @ [s])"
  by (induction t) (force simp: image_iff)+

lemma tally_keys: "fst ` set (tally s t) = insert s (fst ` set t)"
proof -
  have "set (map fst (tally s t)) = insert s (set (map fst t))"
    unfolding tally_map_fst by auto
  then show ?thesis by simp
qed

lemma fold_tally_keys: "fst ` set (fold tally xs t) = set xs \<union> fst ` set t"
  by (induction xs arbitrary: t) (auto simp: tally_keys)

lemma fold_reads_keys:
  "fst ` set (fold (\<lambda>read successors. fold tally (findall sfx n read) successors) database t)
     = (\<Union>read \<in> set database. set (findall sfx n read)) \<union> fst ` set t"
  by (induction database arbitrary: t) (auto simp: fold_tally_keys)

lemma table_keys_plain:
  assumes "\<forall>read \<in> set database. plain read"
    and "find_successors database sfx n = Returns t"
    and "w \<in> fst ` set t"
  shows "plain w"
proof -
  from assms(2) have t: "t = fold (\<lambda>read successors. fold tally (findall sfx n read) successors)
                               database []"
    by (auto simp: find_successors_def split: outcome.splits)
  with assms(3) obtain read where "read \<in> set database" "w \<in> set (findall sfx n read)"
    unfolding t fold_reads_keys by auto
  then have "set w \<subseteq> set read" "plain read" using findall_chars assms(1) by auto
  then show ?thesis by (auto simp: plain_def list_all_iff)
qed

lemma rank_strings: "snd ` set (rank t) = fst ` set t"
  by (force simp: rank_def)

lemma definitive_successor_mem:
  "definitive_successor successors thr m = Some c \<Longrightarrow> c \<in> snd ` set successors"
  by (cases successors) (auto simp: definitive_successor_def Let_def split: if_splits)

lemma py_take_subset: "set (py_take k xs) \<subseteq> set xs"
  by (auto simp: py_take_def dest: in_set_takeD)

lemma branching_successors_subset:
  "branching_successors successors thr m k = Some cs \<Longrightarrow> set cs \<subseteq> snd ` set successors"
  using py_take_subset
  by (fastforce simp: branching_successors_def Let_def split: if_splits)

lemma plain_collection_iff:
  "plain_collection arr \<longleftrightarrow> (\<forall>sc \<in> set arr. \<forall>c \<in> set (sc_content sc). plain (c_content c))"
  by (simp add: plain_collection_def list_all_iff)

lemma plain_state_iff:
  "plain_state s \<longleftrightarrow> plain_collection (array s) \<and> (\<forall>c \<in> set (stack s). plain (c_content c))"
  by (simp add: plain_state_def list_all_iff)

lemma plain_collection_update:
  assumes "plain_collection arr" "\<forall>c \<in> set cs. plain (c_content c)"
  shows "plain_collection (arr[i := sc\<lparr>sc_content := cs\<rparr>])"
  unfolding plain_collection_iff
proof
  fix x assume "x \<in> set (arr[i := sc\<lparr>sc_content := cs\<rparr>])"
  then have "x \<in> insert (sc\<lparr>sc_content := cs\<rparr>) (set arr)"
    by (rule set_update_subset_insert [THEN subsetD])
  then have "x = sc\<lparr>sc_content := cs\<rparr> \<or> x \<in> set arr" by simp
  then show "\<forall>c \<in> set (sc_content x). plain (c_content c)"
    using assms by (auto simp: plain_collection_iff)
qed

lemma plain_collection_nth:
  assumes "plain_collection arr" "i < length arr"
  shows "\<forall>c \<in> set (sc_content (arr ! i)). plain (c_content c)"
proof -
  have "arr ! i \<in> set arr" using assms(2) by simp
  then show ?thesis using assms(1) unfolding plain_collection_iff by blast
qed

lemma plain_append: "plain (a @ b) \<longleftrightarrow> plain a \<and> plain b"
  by (simp add: plain_def)

lemma push_children_plain:
  assumes "push_children cfg contig cands (stk, cnt) = (stk', cnt')"
    and "\<forall>c \<in> set stk. plain (c_content c)" "plain (c_content contig)" "\<forall>w \<in> set cands. plain w"
  shows "\<forall>c \<in> set stk'. plain (c_content c)"
  using assms(1,2,4)
proof (induction cands arbitrary: stk cnt)
  case Nil
  then have "stk' = stk" by simp
  then show ?case using Nil.prems(2) by simp
next
  case (Cons w rest)
  have w: "plain w" and rest: "\<forall>w \<in> set rest. plain w" using Cons.prems(3) by simp_all
  show ?case
  proof (cases "cnt \<ge> max_contig_amount cfg")
    case True
    with Cons.prems(1) have "stk' = stk" by simp
    then show ?thesis using Cons.prems(2) by simp
  next
    case False
    let ?child = "contig\<lparr>c_content := c_content contig @ w\<rparr>"
    from False Cons.prems(1)
    have step: "push_children cfg contig rest (stk @ [?child], cnt + 1) = (stk', cnt')" by simp
    have "plain (c_content ?child)" using assms(3) w by (simp add: plain_append)
    then have pl: "\<forall>c \<in> set (stk @ [?child]). plain (c_content c)"
      using Cons.prems(2) by auto
    show ?thesis by (rule Cons.IH [OF step pl rest])
  qed
qed

lemma attempt_stack_plain:
  assumes "attempt cfg database contig k (stk, cnt, enhanced) = Returns r"
    and "r = Break (stk', cnt', enhanced') \<or> r = Next (stk', cnt', enhanced')"
    and "\<forall>read \<in> set database. plain read"
    and "\<forall>c \<in> set stk. plain (c_content c)" "plain (c_content contig)"
  shows "\<forall>c \<in> set stk'. plain (c_content c)"
proof -
  from assms(1) obtain t where
    t: "find_successors database (py_suffix (c_content contig) k) (successor_length cfg) = Returns t"
    by (auto simp: attempt_unfold and_then_Returns_iff)
  have strings: "\<forall>w \<in> snd ` set (rank t). plain w"
    unfolding rank_strings using table_keys_plain [OF assms(3) t] by blast
  let ?d = "definitive_successor (rank t) (definitive_successor_threshold cfg)
              (definitive_successor_total_min cfg)"
  let ?b = "branching_successors (rank t) (branching_successor_threshold cfg)
              (branching_successor_total_min cfg) (branching_successor_max_count cfg)"
  show ?thesis
  proof (cases ?d)
    case (Some candidate)
    then have "plain candidate" using definitive_successor_mem strings by blast
    moreover from Some assms(1,2) t
    have "stk' = (if enhanced then stk
                  else butlast stk @ [contig\<lparr>c_content := c_content contig @ candidate\<rparr>])"
      by (auto simp: attempt_unfold Let_def)
    ultimately show ?thesis using assms(4,5)
      by (auto simp: plain_append dest: in_set_butlastD)
  next
    case None
    show ?thesis
    proof (cases ?b)
      case None
      with \<open>?d = None\<close> assms(1,2) t have "stk' = stk" by (auto simp: attempt_unfold Let_def)
      then show ?thesis using assms(4) by simp
    next
      case (Some cands)
      show ?thesis
      proof (cases "length cands > 1")
        case False
        with Some \<open>?d = None\<close> assms(1,2) t have "stk' = stk"
          by (auto simp: attempt_unfold Let_def)
        then show ?thesis using assms(4) by simp
      next
        case True
        with Some \<open>?d = None\<close> assms(1,2) t
        have "push_children cfg contig cands (butlast stk, cnt - 1) = (stk', cnt')"
          by (auto simp: attempt_unfold Let_def branch_def and_then_Returns_iff split: if_splits)
        moreover have "\<forall>w \<in> set cands. plain w"
          using branching_successors_subset [OF Some] strings by blast
        moreover have "\<forall>c \<in> set (butlast stk). plain (c_content c)"
          using assms(4) by (auto dest: in_set_butlastD)
        ultimately show ?thesis using push_children_plain assms(5) by blast
      qed
    qed
  qed
qed

lemma suffix_loop_stack_plain:
  assumes "suffix_loop cfg database contig lengths f (stk, cnt, enhanced)
             = Returns (f', stk', cnt', enhanced')"
    and "\<forall>read \<in> set database. plain read"
    and "\<forall>c \<in> set stk. plain (c_content c)" "plain (c_content contig)"
  shows "\<forall>c \<in> set stk'. plain (c_content c)"
  using assms(1,3)
proof (induction lengths arbitrary: f stk cnt enhanced)
  case Nil
  then show ?case by simp
next
  case (Cons k rest)
  show ?case
  proof (cases "isStopped f")
    case True
    then show ?thesis using Cons.prems by simp
  next
    case False
    then obtain r where r: "attempt cfg database contig k (stk, cnt, enhanced) = Returns r"
      and c: "(case r of Break st' \<Rightarrow> Returns (tick f, st')
                | Next st' \<Rightarrow> suffix_loop cfg database contig rest (tick f) st')
              = Returns (f', stk', cnt', enhanced')"
      using Cons.prems(1) by (auto simp: and_then_Returns_iff)
    show ?thesis
    proof (cases r)
      case (Break st')
      then have "r = Break (stk', cnt', enhanced')" using c by simp
      from attempt_stack_plain [OF r _ assms(2) Cons.prems(2) assms(4)] this
      show ?thesis by blast
    next
      case (Next st')
      obtain s1 c1 e1 where st': "st' = (s1, c1, e1)" using prod_cases3 by blast
      from attempt_stack_plain [OF r _ assms(2) Cons.prems(2) assms(4), of s1 c1 e1] Next st'
      have a: "\<forall>c \<in> set s1. plain (c_content c)" by blast
      from c Next st'
      have "suffix_loop cfg database contig rest (tick f) (s1, c1, e1)
              = Returns (f', stk', cnt', enhanced')" by simp
      from Cons.IH [OF this a] show ?thesis .
    qed
  qed
qed

lemma loop_body_plain:
  assumes "\<forall>read \<in> set database. plain read" and "int (successor_length cfg) < MAXREPEAT"
    and "stack s \<noteq> []" and "plain_state s" and "i < length (array s)"
  shows "no_regex_failure (loop_body cfg database i s)
         \<and> (\<forall>s'. loop_body cfg database i s = Returns s' \<longrightarrow> plain_state s')"
proof -
  let ?c = "inspect cfg (array s) (last (stack s))"
  have top: "plain (c_content ?c)"
    using assms(3,4) last_in_set [of "stack s"] by (simp add: plain_state_iff)
  show ?thesis
  proof (cases "c_status ?c \<noteq> OPEN")
    case True
    then have b: "loop_body cfg database i s
                = Returns (s\<lparr>array := append_content (array s) i [?c], stack := butlast (stack s)\<rparr>)"
      by (simp add: loop_body_def Let_def)
    have "\<forall>c \<in> set (sc_content (array s ! i) @ [?c]). plain (c_content c)"
      using plain_collection_nth [OF _ assms(5)] assms(4) top by (auto simp: plain_state_iff)
    then have "plain_collection (append_content (array s) i [?c])"
      unfolding append_content_def using assms(4)
      by (intro plain_collection_update) (simp_all add: plain_state_iff)
    then have "plain_state (s\<lparr>array := append_content (array s) i [?c], stack := butlast (stack s)\<rparr>)"
      using assms(4) by (auto simp: plain_state_iff dest: in_set_butlastD)
    with b show ?thesis by (simp add: no_regex_failure_def)
  next
    case False
    show ?thesis
    proof (cases "py_range (max_suffix_length cfg) (min_suffix_length cfg - 1)
                    (- suffix_length_step cfg)")
      case None
      with False show ?thesis by (simp add: loop_body_def Let_def no_regex_failure_def)
    next
      case (Some lengths)
      let ?r = "suffix_loop cfg database ?c lengths (flag s) (stack s, total_contig_count s, False)"
      have safe: "regex_safe ?r"
        using suffix_loop_plain [of ?c cfg database lengths "flag s"] top assms(2)
        by (simp add: plain_def)
      have eq: "loop_body cfg database i s =
                  and_then ?r (\<lambda>(f, stk, cnt, enhanced).
                    Returns (s\<lparr>stack := (if enhanced then stk
                                          else butlast stk @ [?c\<lparr>c_status := STUCK\<rparr>]),
                              total_contig_count := cnt, flag := f\<rparr>))"
        using False Some by (simp add: loop_body_def Let_def)
      show ?thesis
      proof (cases ?r)
        case (Returns x)
        obtain f stk cnt enhanced where x: "x = (f, stk, cnt, enhanced)"
          using prod_cases4 by blast
        have stk: "\<forall>c \<in> set stk. plain (c_content c)"
          using suffix_loop_stack_plain [OF _ assms(1) _ top, of cfg lengths "flag s" "stack s"
                  "total_contig_count s" False f stk cnt enhanced] Returns x assms(4)
          by (simp add: plain_state_iff)
        have "plain_state (s\<lparr>stack := (if enhanced then stk
                                          else butlast stk @ [?c\<lparr>c_status := STUCK\<rparr>]),
                              total_contig_count := cnt, flag := f\<rparr>)"
          using stk top assms(4) by (auto simp: plain_state_iff dest: in_set_butlastD)
        then show ?thesis unfolding eq Returns x by (simp add: no_regex_failure_def)
      next
        case (Raises e)
        then show ?thesis using safe unfolding eq
          by (cases e) (simp_all add: regex_safe_def no_regex_failure_def)
      next
        case Unmodelled
        then show ?thesis using safe by (simp add: regex_safe_def)
      next
        case OutOfFuel
        then show ?thesis using safe by (simp add: regex_safe_def)
      qed
    qed
  qed
qed

lemma while_loop_plain:
  assumes "\<forall>read \<in> set database. plain read" and "int (successor_length cfg) < MAXREPEAT"
    and "plain_state s" and "i < length (array s)"
  shows "no_regex_failure (while_loop fuel cfg database i s)
         \<and> (\<forall>s'. while_loop fuel cfg database i s = Returns s' \<longrightarrow> plain_state s')"
  using assms(3,4)
proof (induction fuel arbitrary: s)
  case 0
  then show ?case by (simp add: no_regex_failure_def)
next
  case (Suc fuel)
  show ?case
  proof (cases "stack s = [] \<or> isStopped (flag s)")
    case True
    then show ?thesis using Suc.prems by (auto simp: no_regex_failure_def)
  next
    case False
    let ?s0 = "s\<lparr>flag := tick (flag s)\<rparr>"
    have p0: "plain_state ?s0" using Suc.prems by (simp add: plain_state_iff)
    have ne: "stack ?s0 \<noteq> []" using False by simp
    have i0: "i < length (array ?s0)" using Suc.prems by simp
    from loop_body_plain [OF assms(1,2) ne p0 i0]
    have safe: "no_regex_failure (loop_body cfg database i ?s0)"
      and keep: "\<forall>s'. loop_body cfg database i ?s0 = Returns s' \<longrightarrow> plain_state s'" by blast+
    have eq: "while_loop (Suc fuel) cfg database i s
                = and_then (loop_body cfg database i ?s0) (while_loop fuel cfg database i)"
      using False by simp
    show ?thesis
    proof (cases "loop_body cfg database i ?s0")
      case (Returns s1)
      with keep have "plain_state s1" by blast
      moreover have "i < length (array s1)"
        using loop_body_content_prefix [OF Returns] i0 by simp
      ultimately show ?thesis using Suc.IH unfolding eq Returns by simp
    next
      case (Raises e)
      then show ?thesis using safe unfolding eq by (simp add: no_regex_failure_def)
    next
      case Unmodelled
      then show ?thesis using safe by (simp add: no_regex_failure_def)
    next
      case OutOfFuel
      then show ?thesis unfolding eq by (simp add: no_regex_failure_def)
    qed
  qed
qed

lemma process_plain:
  assumes "\<forall>read \<in> set database. plain read" and "int (successor_length cfg) < MAXREPEAT"
    and "plain_collection arr" and "i < length arr"
  shows "no_regex_failure (process fuel cfg database i f arr)
         \<and> (\<forall>f' arr'. process fuel cfg database i f arr = Returns (f', arr')
               \<longrightarrow> plain_collection arr' \<and> length arr' = length arr)"
proof -
  let ?stk = "filter (\<lambda>x. c_status x = OPEN) (sc_content (arr ! i))"
  let ?kept = "filter (\<lambda>x. c_status x \<noteq> OPEN) (sc_content (arr ! i))"
  let ?s = "\<lparr>array = arr[i := (arr ! i)\<lparr>sc_content := ?kept\<rparr>], stack = ?stk,
             total_contig_count = int (length ?stk) + int (length ?kept), flag = f\<rparr>"
  have all: "\<forall>c \<in> set (sc_content (arr ! i)). plain (c_content c)"
    using plain_collection_nth [OF assms(3,4)] .
  have "plain_collection (arr[i := (arr ! i)\<lparr>sc_content := ?kept\<rparr>])"
    using assms(3) all by (intro plain_collection_update) simp_all
  moreover have "\<forall>c \<in> set ?stk. plain (c_content c)"
    using all by simp
  ultimately have ps: "plain_state ?s" by (simp add: plain_state_iff)
  have idx: "i < length (array ?s)" using assms(4) by simp
  from while_loop_plain [OF assms(1,2) ps idx, of fuel]
  have safe: "no_regex_failure (while_loop fuel cfg database i ?s)"
    and keep: "\<forall>s'. while_loop fuel cfg database i ?s = Returns s' \<longrightarrow> plain_state s'" by blast+
  have eq: "process fuel cfg database i f arr
              = and_then (while_loop fuel cfg database i ?s)
                  (\<lambda>s. Returns (flag s, append_content (array s) i (stack s)))"
    by (simp add: process_def Let_def)
  show ?thesis
  proof (cases "while_loop fuel cfg database i ?s")
    case (Returns s')
    with keep have p': "plain_state s'" by blast
    have len: "length (array s') = length arr"
      using while_loop_content_prefix [OF Returns] assms(4) by simp
    have "\<forall>c \<in> set (sc_content (array s' ! i) @ stack s'). plain (c_content c)"
      using plain_collection_nth [of "array s'" i] p' len assms(4) by (auto simp: plain_state_iff)
    then have "plain_collection (append_content (array s') i (stack s'))"
      unfolding append_content_def using p'
      by (intro plain_collection_update) (simp_all add: plain_state_iff)
    then show ?thesis unfolding eq Returns using len by (simp add: no_regex_failure_def)
  next
    case (Raises e)
    then show ?thesis using safe unfolding eq by (simp add: no_regex_failure_def)
  next
    case Unmodelled
    then show ?thesis using safe by (simp add: no_regex_failure_def)
  next
    case OutOfFuel
    then show ?thesis unfolding eq by (simp add: no_regex_failure_def)
  qed
qed

lemma start_from_plain:
  assumes "\<forall>read \<in> set database. plain read" and "int (successor_length cfg) < MAXREPEAT"
    and "plain_collection arr" and "\<forall>i \<in> set indices. i < length arr"
  shows "no_regex_failure (start_from fuel cfg database indices f arr)"
  using assms(3,4)
proof (induction indices arbitrary: f arr)
  case Nil
  show ?case by (simp add: no_regex_failure_def)
next
  case (Cons i rest)
  show ?case
  proof (cases "isStopped f")
    case True
    then show ?thesis by (simp add: no_regex_failure_def)
  next
    case False
    show ?thesis
    proof (cases "sc_status (arr ! i) \<noteq> OPEN")
      case True
      with False Cons show ?thesis by simp
    next
      case opn: False
      have i: "i < length arr" using Cons.prems(2) by simp
      from process_plain [OF assms(1,2) Cons.prems(1) i, of fuel "tick f"]
      have safe: "no_regex_failure (process fuel cfg database i (tick f) arr)"
        and keep: "\<forall>f' arr'. process fuel cfg database i (tick f) arr = Returns (f', arr')
               \<longrightarrow> plain_collection arr' \<and> length arr' = length arr" by blast+
      have eq: "start_from fuel cfg database (i # rest) f arr
                  = and_then (process fuel cfg database i (tick f) arr)
                      (\<lambda>(f', arr'). start_from fuel cfg database rest f' arr')"
        using False opn by simp
      show ?thesis
      proof (cases "process fuel cfg database i (tick f) arr")
        case (Returns x)
        obtain f' arr' where x: "x = (f', arr')" by (cases x) auto
        with keep Returns have "plain_collection arr'" "length arr' = length arr" by blast+
        with Cons.IH [of arr' f'] Cons.prems(2) show ?thesis unfolding eq Returns x by simp
      next
        case (Raises e)
        then show ?thesis using safe unfolding eq by (simp add: no_regex_failure_def)
      next
        case Unmodelled
        then show ?thesis using safe by (simp add: no_regex_failure_def)
      next
        case OutOfFuel
        then show ?thesis unfolding eq by (simp add: no_regex_failure_def)
      qed
    qed
  qed
qed

text \<open>
  Claim C9, as the code has it. For a fragment whose content has no regular-expression
  metacharacter (letters of any case and any alphabet, digits, and other plain
  characters), and a successor length below the bound of the \<open>re\<close> module,
  \<open>find_successors\<close> returns a table for every suffix taken from the content, and
  the for loop over the suffix lengths raises no regular-expression error: it
  returns, or it ends with the IndexError of a branching step on an empty stack.
  When moreover no read of the corpus and no fragment of the collection has a
  metacharacter, no call of \<open>start\<close> ends with an error of \<open>re.compile\<close>.
\<close>

theorem plain_content_no_regex_error:
  assumes "plain (c_content contig)" and "int (successor_length cfg) < MAXREPEAT"
  shows "(\<exists>t. find_successors database (py_suffix (c_content contig) k) (successor_length cfg)
               = Returns t)
         \<and> suffix_loop cfg database contig lengths f st \<noteq> Raises re_error
         \<and> suffix_loop cfg database contig lengths f st \<noteq> Raises OverflowError
         \<and> suffix_loop cfg database contig lengths f st \<noteq> Raises ValueError
         \<and> suffix_loop cfg database contig lengths f st \<noteq> Unmodelled
         \<and> suffix_loop cfg database contig lengths f st \<noteq> OutOfFuel
         \<and> (list_all plain database \<and> plain_collection arr \<longrightarrow>
               start fuel cfg database f arr \<noteq> Raises re_error
               \<and> start fuel cfg database f arr \<noteq> Raises OverflowError
               \<and> start fuel cfg database f arr \<noteq> Unmodelled)"
proof -
  have c: "list_all (\<lambda>c. \<not> metachar c) (c_content contig)"
    using assms(1) by (simp add: plain_def)
  then have "list_all (\<lambda>c. \<not> metachar c) (py_suffix (c_content contig) k)"
    by (rule py_suffix_list_all)
  then have a: "\<exists>t. find_successors database (py_suffix (c_content contig) k) (successor_length cfg)
                 = Returns t"
    using assms(2) by (simp add: find_successors_plain)
  have b: "regex_safe (suffix_loop cfg database contig lengths f st)"
    using suffix_loop_plain [OF c assms(2)] .
  have "no_regex_failure (start fuel cfg database f arr)"
    if "list_all plain database \<and> plain_collection arr"
    unfolding start_def using that assms(2)
    by (intro start_from_plain) (simp_all add: list_all_iff)
  with a b show ?thesis by (simp add: regex_safe_def no_regex_failure_def)
qed

theorem plain_content_no_regex_error_witness:
  "plain (c_content \<lparr>c_status = OPEN, c_content = ''aN-x''\<rparr>)
   \<and> int (successor_length example_config) < MAXREPEAT
   \<and> list_all plain two_reads \<and> plain_collection single_A
   \<and> find_successors two_reads (py_suffix ''aN-x'' 2) 1 = Returns []
   \<and> suffix_loop example_config two_reads \<lparr>c_status = OPEN, c_content = ''aN-x''\<rparr> [2, 1] None
        ([\<lparr>c_status = OPEN, c_content = ''aN-x''\<rparr>], 1, False) \<noteq> Raises re_error
   \<and> start 10 example_config two_reads None single_A \<noteq> Raises re_error"
proof -
  let ?c = "\<lparr>c_status = OPEN, c_content = ''aN-x''\<rparr>"
  have h: "plain (c_content ?c)" by (simp add: plain_def metachar_def)
  have h': "int (successor_length example_config) < MAXREPEAT"
    by (simp add: example_config_def MAXREPEAT_def)
  have d: "list_all plain two_reads \<and> plain_collection single_A"
    by (simp add: two_reads_def single_A_def plain_collection_def plain_def metachar_def)
  have e: "find_successors two_reads (py_suffix ''aN-x'' 2) 1 = Returns []" by code_simp
  from plain_content_no_regex_error [OF h h', of two_reads 2 "[2, 1]" None "([?c], 1, False)"
         single_A 10] d
  have "suffix_loop example_config two_reads ?c [2, 1] None ([?c], 1, False) \<noteq> Raises re_error"
    and "start 10 example_config two_reads None single_A \<noteq> Raises re_error"
    by blast+
  with h h' d e show ?thesis by blast
qed

text \<open>
  Claim C9 as stated fails: a fragment whose content ends with an opening parenthesis
  makes \<open>find_successors\<close> raise, since the suffix is pasted into the pattern unescaped,
  and the exception leaves \<open>start\<close>.
\<close>

theorem parenthesis_raises:
  "find_successors two_reads (py_suffix ''AC('' 2) 1 = Raises re_error
   \<and> start 5 example_config two_reads None
        [\<lparr>sc_status = OPEN, sc_content = [\<lparr>c_status = OPEN, c_content = ''AC(''\<rparr>]\<rparr>]
      = Raises re_error"
  by code_simp

subsection \<open>The budget of contigs\<close>

lemma int_length_pred: "xs \<noteq> [] \<Longrightarrow> int (length xs - Suc 0) = int (length xs) - 1"
  by (cases xs) simp_all

lemma push_children_props:
  assumes "push_children cfg contig cands (stk, cnt) = (stk', cnt')"
  shows "cnt' - int (length stk') = cnt - int (length stk)
         \<and> cnt \<le> cnt' \<and> cnt' \<le> max (max_contig_amount cfg) cnt
         \<and> prefix stk stk'
         \<and> (stk' \<noteq> stk \<longrightarrow> cnt' \<le> max_contig_amount cfg)"
  using assms
proof (induction cands arbitrary: stk cnt)
  case Nil
  then show ?case by simp
next
  case (Cons successor rest)
  show ?case
  proof (cases "cnt \<ge> max_contig_amount cfg")
    case True
    then show ?thesis using Cons.prems by simp
  next
    case False
    let ?child = "contig\<lparr>c_content := c_content contig @ successor\<rparr>"
    from False Cons.prems
    have "push_children cfg contig rest (stk @ [?child], cnt + 1) = (stk', cnt')" by simp
    from Cons.IH [OF this]
    have a: "cnt' - int (length stk') = cnt + 1 - int (length (stk @ [?child]))"
      and b: "cnt + 1 \<le> cnt'" and c: "cnt' \<le> max (max_contig_amount cfg) (cnt + 1)"
      and d: "prefix (stk @ [?child]) stk'" by blast+
    from d have "prefix stk stk'" using append_prefixD by blast
    moreover from c False have "cnt' \<le> max_contig_amount cfg" by simp
    ultimately show ?thesis using a b by simp
  qed
qed

text \<open>
  Claim C5, as the code has it. A branching step entered with a count that is the
  number of contigs on the stack and in the content of the supercontig leaves the count
  equal to that number; the count after the step is at most the larger of
  \<open>max_contig_amount\<close> and the count before the step less one; if the step has pushed a
  child the count after it is at most \<open>max_contig_amount\<close>; and when the count less one
  is already at or above \<open>max_contig_amount\<close> no child is pushed at all.
\<close>

theorem branch_budget:
  assumes "branch cfg contig cands (stk, cnt) = Returns (stk', cnt')"
    and "cnt = int (length stk) + int (length finalized)"
  shows "cnt' = int (length stk') + int (length finalized)
         \<and> cnt' \<le> max (max_contig_amount cfg) (cnt - 1)
         \<and> (stk' \<noteq> butlast stk \<longrightarrow> cnt' \<le> max_contig_amount cfg)
         \<and> (max_contig_amount cfg \<le> cnt - 1 \<longrightarrow> stk' = butlast stk \<and> cnt' = cnt - 1)"
proof -
  from assms(1) have ne: "stk \<noteq> []"
    and p: "push_children cfg contig cands (butlast stk, cnt - 1) = (stk', cnt')"
    by (auto simp: branch_def split: if_splits)
  from push_children_props [OF p]
  have a: "cnt' - int (length stk') = cnt - 1 - int (length (butlast stk))"
    and b: "cnt' \<le> max (max_contig_amount cfg) (cnt - 1)"
    and c: "stk' \<noteq> butlast stk \<longrightarrow> cnt' \<le> max_contig_amount cfg"
    and d: "cnt - 1 \<le> cnt'" and pre: "prefix (butlast stk) stk'" by blast+
  have "int (length (butlast stk)) = int (length stk) - 1" using ne by (simp add: int_length_pred)
  with a assms(2) have e: "cnt' = int (length stk') + int (length finalized)" by simp
  have "max_contig_amount cfg \<le> cnt - 1 \<longrightarrow> stk' = butlast stk \<and> cnt' = cnt - 1"
  proof
    assume "max_contig_amount cfg \<le> cnt - 1"
    with b d have eq: "cnt' = cnt - 1" by simp
    with a have "length (butlast stk) = length stk'" by simp
    with pre have "stk' = butlast stk" by (auto simp: prefix_def)
    with eq show "stk' = butlast stk \<and> cnt' = cnt - 1" by simp
  qed
  with e b c show ?thesis by blast
qed

theorem branch_budget_witness:
  "branch example_config \<lparr>c_status = OPEN, c_content = ''A''\<rparr> [''G'', ''C'']
      ([\<lparr>c_status = OPEN, c_content = ''A''\<rparr>], 1)
     = Returns ([\<lparr>c_status = OPEN, c_content = ''AG''\<rparr>, \<lparr>c_status = OPEN, c_content = ''AC''\<rparr>], 2)
   \<and> (1::int) = int (length [\<lparr>c_status = OPEN, c_content = ''A''\<rparr>]) + int (length ([]::contig list))
   \<and> (2::int) = int (length [\<lparr>c_status = OPEN, c_content = ''AG''\<rparr>,
                               \<lparr>c_status = OPEN, c_content = ''AC''\<rparr>])
                 + int (length ([]::contig list))
   \<and> (2::int) \<le> max (max_contig_amount example_config) (1 - 1)"
proof -
  let ?c = "\<lparr>c_status = OPEN, c_content = ''A''\<rparr>"
  let ?out = "[\<lparr>c_status = OPEN, c_content = ''AG''\<rparr>, \<lparr>c_status = OPEN, c_content = ''AC''\<rparr>]"
  have b: "branch example_config ?c [''G'', ''C''] ([?c], 1) = Returns (?out, 2)"
    by code_simp
  have h: "(1::int) = int (length [?c]) + int (length ([]::contig list))" by simp
  from branch_budget [OF b h]
  have "(2::int) = int (length ?out) + int (length ([]::contig list))"
    and "(2::int) \<le> max (max_contig_amount example_config) (1 - 1)" by blast+
  with b h show ?thesis by blast
qed

text \<open>
  Claim C5 as stated fails: a supercontig that comes with seven contigs is entered with
  the count 7, above \<open>max_contig_amount = 5\<close>. The branching step on its last contig pops
  it and pushes no child, and leaves six contigs tracked.
\<close>

theorem count_above_budget_after_branching:
  "loop_body single_length_config two_reads 0 seven_state
     = Returns (seven_state\<lparr>stack := butlast seven_contigs, total_contig_count := 6\<rparr>)
   \<and> max_contig_amount single_length_config = 5
   \<and> int (length (butlast seven_contigs)) + int (length (sc_content (array seven_state ! 0))) = 6"
  by code_simp

text \<open>The count is kept equal to the number of contigs on the stack and in the content
  of the supercontig through every pass of the while loop.\<close>

lemma attempt_count:
  assumes "attempt cfg database contig k (stk, cnt, enhanced) = Returns r"
    and "r = Break (stk', cnt', enhanced') \<or> r = Next (stk', cnt', enhanced')"
    and "\<not> enhanced \<longrightarrow> stk \<noteq> []"
  shows "cnt' - int (length stk') = cnt - int (length stk)
         \<and> (\<not> enhanced' \<longrightarrow> \<not> enhanced \<and> stk' = stk)"
proof -
  { fix cands s c
    assume "branch cfg contig cands (stk, cnt) = Returns (s, c)"
    then have "stk \<noteq> []" and "push_children cfg contig cands (butlast stk, cnt - 1) = (s, c)"
      by (auto simp: branch_def split: if_splits)
    from push_children_props [OF this(2)] this(1)
    have "c - int (length s) = cnt - int (length stk)" by (simp add: int_length_pred) }
  note br = this
  show ?thesis
    using assms br
    by (auto simp: attempt_unfold and_then_Returns_iff Let_def
             split: option.splits if_splits prod.splits)
qed

lemma suffix_loop_count:
  assumes "suffix_loop cfg database contig lengths f (stk, cnt, enhanced)
             = Returns (f', stk', cnt', enhanced')"
    and "\<not> enhanced \<longrightarrow> stk \<noteq> []"
  shows "cnt' - int (length stk') = cnt - int (length stk)
         \<and> (\<not> enhanced' \<longrightarrow> \<not> enhanced \<and> stk' = stk)"
  using assms
proof (induction lengths arbitrary: f stk cnt enhanced)
  case Nil
  then show ?case by simp
next
  case (Cons k rest)
  show ?case
  proof (cases "isStopped f")
    case True
    then show ?thesis using Cons.prems by simp
  next
    case False
    then obtain r where r: "attempt cfg database contig k (stk, cnt, enhanced) = Returns r"
      and c: "(case r of Break st' \<Rightarrow> Returns (tick f, st')
                | Next st' \<Rightarrow> suffix_loop cfg database contig rest (tick f) st')
              = Returns (f', stk', cnt', enhanced')"
      using Cons.prems(1) by (auto simp: and_then_Returns_iff)
    show ?thesis
    proof (cases r)
      case (Break st')
      then have "r = Break (stk', cnt', enhanced')" using c by simp
      from attempt_count [OF r _ Cons.prems(2)] this show ?thesis by blast
    next
      case (Next st')
      obtain s1 c1 e1 where st': "st' = (s1, c1, e1)" using prod_cases3 by blast
      from attempt_count [OF r _ Cons.prems(2), of s1 c1 e1] Next st'
      have a: "c1 - int (length s1) = cnt - int (length stk)"
        and b: "\<not> e1 \<longrightarrow> \<not> enhanced \<and> s1 = stk" by blast+
      from c Next st'
      have "suffix_loop cfg database contig rest (tick f) (s1, c1, e1)
              = Returns (f', stk', cnt', enhanced')" by simp
      from Cons.IH [OF this] b Cons.prems(2)
      have "cnt' - int (length stk') = c1 - int (length s1)"
        and "\<not> enhanced' \<longrightarrow> \<not> e1 \<and> stk' = s1" by blast+
      with a b show ?thesis by auto
    qed
  qed
qed

lemma loop_body_count:
  assumes "loop_body cfg database i s = Returns s'" "stack s \<noteq> []" "i < length (array s)"
    and "count_ok i s"
  shows "count_ok i s'"
proof (cases "c_status (inspect cfg (array s) (last (stack s))) \<noteq> OPEN")
  case True
  then have "s' = s\<lparr>array := append_content (array s) i [inspect cfg (array s) (last (stack s))],
                      stack := butlast (stack s)\<rparr>"
    using assms(1) by (simp add: loop_body_def Let_def)
  then show ?thesis using assms(2,3,4)
    by (simp add: count_ok_def append_content_def int_length_pred)
next
  case False
  then obtain lengths f stk cnt enhanced where
    sl: "suffix_loop cfg database (inspect cfg (array s) (last (stack s))) lengths (flag s)
           (stack s, total_contig_count s, False) = Returns (f, stk, cnt, enhanced)"
    and s': "s' = s\<lparr>stack := (if enhanced then stk
                  else butlast stk @ [(inspect cfg (array s) (last (stack s)))\<lparr>c_status := STUCK\<rparr>]),
                  total_contig_count := cnt, flag := f\<rparr>"
    using assms(1)
    by (auto simp: loop_body_def Let_def and_then_Returns_iff split: option.splits)
  from suffix_loop_count [OF sl] assms(2)
  have "cnt - int (length stk) = total_contig_count s - int (length (stack s))"
    and "\<not> enhanced \<longrightarrow> stk = stack s" by simp_all
  then show ?thesis using assms(2,4) s' by (auto simp: count_ok_def)
qed

lemma while_loop_count:
  assumes "while_loop fuel cfg database i s = Returns s'" "i < length (array s)" "count_ok i s"
  shows "count_ok i s'"
  using assms
proof (induction fuel arbitrary: s)
  case 0
  then show ?case by (auto split: if_splits)
next
  case (Suc fuel)
  show ?case
  proof (cases "stack s = [] \<or> isStopped (flag s)")
    case True
    then show ?thesis using Suc.prems by (auto split: if_splits)
  next
    case False
    let ?s0 = "s\<lparr>flag := tick (flag s)\<rparr>"
    from False obtain s1 where b: "loop_body cfg database i ?s0 = Returns s1"
      and w: "while_loop fuel cfg database i s1 = Returns s'"
      using Suc.prems(1) by (auto simp: and_then_Returns_iff)
    have "count_ok i ?s0" using Suc.prems(3) by (simp add: count_ok_def)
    with b False Suc.prems(2) have c1: "count_ok i s1"
      using loop_body_count [of cfg database i ?s0 s1] by simp
    have "i < length (array s1)"
      using loop_body_content_prefix [OF b] Suc.prems(2) by simp
    from Suc.IH [OF w this c1] show ?thesis .
  qed
qed

subsection \<open>The stop flag observed in the for loop\<close>

text \<open>
  Claim C2 against the code. The flag is set after the while loop has read it and
  before the for loop reads it for the first suffix length: the for loop is left at
  once, no extension has been attempted, \<open>enhanced\<close> is still False, and the fragment is
  marked STUCK before the while loop stops and the stack is appended to the content.
  When the flag is set one read earlier, the while loop itself observes it and the
  fragment stays OPEN.
\<close>

theorem stopped_fragment_marked_stuck:
  "start 5 example_config two_reads (Some 2) single_A
     = Returns [\<lparr>sc_status = OPEN, sc_content = [\<lparr>c_status = STUCK, c_content = ''A''\<rparr>]\<rparr>]
   \<and> start 5 example_config two_reads (Some 1) single_A
     = Returns [\<lparr>sc_status = OPEN, sc_content = [\<lparr>c_status = OPEN, c_content = ''A''\<rparr>]\<rparr>]"
  by code_simp

subsection \<open>Suffix lengths tried after a branching step\<close>

text \<open>
  Claim C7 against the code. The contig A is shorter than both suffix lengths, so both
  passes of the for loop find the successors G and C. The first pass pops A and pushes AG
  and AC. The second pass branches again: its \<open>pop\<close> removes the child AC, and AG and AC
  are pushed once more, so that AG ends up twice in the supercontig. The variant that
  leaves the for loop after the first branching step ends with AC and AG once each.
  With \<open>max_contig_amount = 0\<close> the first step pushes no child and the second \<open>pop\<close>
  raises on the empty stack, where the variant returns.
\<close>

theorem continuing_after_branching_differs:
  "start 10 example_config two_reads None single_A
     = Returns [\<lparr>sc_status = OPEN,
                 sc_content = [\<lparr>c_status = STUCK, c_content = ''AC''\<rparr>,
                               \<lparr>c_status = STUCK, c_content = ''AG''\<rparr>,
                               \<lparr>c_status = STUCK, c_content = ''AG''\<rparr>]\<rparr>]
   \<and> start_break_on_branch 10 example_config two_reads None single_A
     = Returns [\<lparr>sc_status = OPEN,
                 sc_content = [\<lparr>c_status = STUCK, c_content = ''AC''\<rparr>,
                               \<lparr>c_status = STUCK, c_content = ''AG''\<rparr>]\<rparr>]
   \<and> start 10 (example_config\<lparr>max_contig_amount := 0\<rparr>) two_reads None single_A
     = Raises IndexError
   \<and> start_break_on_branch 10 (example_config\<lparr>max_contig_amount := 0\<rparr>) two_reads None single_A
     = Returns [\<lparr>sc_status = OPEN, sc_content = []\<rparr>]"
  by code_simp

end
